theory Spec2Isabelle
  imports Main "HOL-Library.Product_Lexorder"
begin

section \<open>The job table \<open>email_campaigns\<close>\<close>

text \<open>
  One row of \<open>email_campaigns\<close> as \<open>Database.init_tables\<close> declares it. The primary key
  \<open>id\<close> is called \<open>row_id\<close> here (\<open>id\<close> is the identity function of HOL).
  \<open>serial_number\<close>, \<open>title\<close>, \<open>company\<close>, \<open>error_message\<close> and \<open>sent_at\<close> are nullable
  columns that the code reads or writes as NULL, hence options. Timestamps are integers;
  \<open>NOW()\<close> is a parameter \<open>now\<close> of every statement that uses it.
\<close>

type_synonym timestamp = int

record row =
  row_id :: int
  serial_number :: "int option"
  name :: string
  email :: string
  title :: "string option"
  company :: "string option"
  status :: string
  sent :: bool
  error_message :: "string option"
  sent_at :: "timestamp option"
  created_at :: timestamp
  updated_at :: timestamp

text \<open>
  A table is the list of its rows in the order in which a scan yields them. SQL fixes
  that order nowhere, so no definition below relies on it being the insertion order.
\<close>

type_synonym table = "row list"

text \<open>The dictionaries of \<open>test_contacts\<close>: the values bound to the INSERT.\<close>

record contact =
  c_serial_number :: int
  c_name :: string
  c_email :: string
  c_title :: "string option"
  c_company :: "string option"

datatype db_error = UniqueViolation

subsection \<open>Writes\<close>

text \<open>
  \<open>Database.update_email_status\<close>: the branch \<open>status == "sent"\<close> sets \<open>status\<close>,
  \<open>sent\<close>, \<open>sent_at\<close> and \<open>updated_at\<close>; every other status sets \<open>status\<close>,
  \<open>error_message\<close> and \<open>updated_at\<close>. Neither branch touches the other column.
\<close>

definition update_email_status ::
  "timestamp \<Rightarrow> int \<Rightarrow> string \<Rightarrow> string option \<Rightarrow> table \<Rightarrow> table" where
  "update_email_status now email_id st err tbl =
     (if st = ''sent''
      then map (\<lambda>r. if row_id r = email_id
                     then r\<lparr>status := st, sent := True, sent_at := Some now, updated_at := now\<rparr>
                     else r) tbl
      else map (\<lambda>r. if row_id r = email_id
                     then r\<lparr>status := st, error_message := err, updated_at := now\<rparr>
                     else r) tbl)"

text \<open>What the statement of \<open>update_email_status\<close> does to one row that it matches.\<close>

definition outcome_row :: "timestamp \<Rightarrow> string \<Rightarrow> string option \<Rightarrow> row \<Rightarrow> row" where
  "outcome_row now st err r =
     (if st = ''sent''
      then r\<lparr>status := st, sent := True, sent_at := Some now, updated_at := now\<rparr>
      else r\<lparr>status := st, error_message := err, updated_at := now\<rparr>)"

text \<open>\<open>Database.reset_email_status\<close>: the UPDATE names four columns; \<open>sent_at\<close> is not one.\<close>

definition reset_row :: "timestamp \<Rightarrow> row \<Rightarrow> row" where
  "reset_row now r =
     r\<lparr>status := ''pending'', sent := False, error_message := None, updated_at := now\<rparr>"

definition reset_email_status :: "timestamp \<Rightarrow> int \<Rightarrow> table \<Rightarrow> table" where
  "reset_email_status now email_id tbl =
     map (\<lambda>r. if row_id r = email_id then reset_row now r else r) tbl"

text \<open>\<open>Database.reset_all_failed\<close>: the same SET list, \<open>WHERE status = 'failed'\<close>.\<close>

definition reset_all_failed :: "timestamp \<Rightarrow> table \<Rightarrow> table" where
  "reset_all_failed now tbl =
     map (\<lambda>r. if status r = ''failed'' then reset_row now r else r) tbl"

text \<open>
  The upsert of \<open>Database.add_test_contacts\<close> and of \<open>add_tests.py\<close>:
  \<open>INSERT ... ON CONFLICT (email) DO UPDATE SET ...\<close>. A row with the same email is
  updated in the seven columns of the SET list (\<open>serial_number\<close> and \<open>updated_at\<close> are
  not among them). Otherwise a row is inserted with the column defaults; \<open>new_id\<close> is the
  value the SERIAL sequence supplies, and a primary key already in use makes the
  statement fail.
\<close>

definition conflict_update :: "contact \<Rightarrow> row \<Rightarrow> row" where
  "conflict_update c r =
     r\<lparr>status := ''pending'', sent := False, name := c_name c, title := c_title c,
       company := c_company c, error_message := None, sent_at := None\<rparr>"

definition inserted_row :: "timestamp \<Rightarrow> int \<Rightarrow> contact \<Rightarrow> row" where
  "inserted_row now new_id c =
     \<lparr>row_id = new_id, serial_number = Some (c_serial_number c), name = c_name c,
      email = c_email c, title = c_title c, company = c_company c,
      status = ''pending'', sent = False, error_message = None, sent_at = None,
      created_at = now, updated_at = now\<rparr>"

definition upsert :: "timestamp \<Rightarrow> int \<Rightarrow> contact \<Rightarrow> table \<Rightarrow> db_error + table" where
  "upsert now new_id c tbl =
     (if c_email c \<in> set (map email tbl)
      then Inr (map (\<lambda>r. if email r = c_email c then conflict_update c r else r) tbl)
      else if new_id \<in> set (map row_id tbl) then Inl UniqueViolation
      else Inr (tbl @ [inserted_row now new_id c]))"

subsection \<open>Reads\<close>

text \<open>
  \<open>ORDER BY serial_number ASC\<close>: PostgreSQL puts NULL last in ascending order, so the
  sort key is the pair (is NULL, value). Rows with equal keys keep the order of the scan
  (\<open>sort_key\<close> is stable); the query itself says nothing about them.
\<close>

definition serial_key :: "row \<Rightarrow> nat \<times> int" where
  "serial_key r = (case serial_number r of None \<Rightarrow> (1, 0) | Some n \<Rightarrow> (0, n))"

definition is_pending :: "row \<Rightarrow> bool" where
  "is_pending r = (status r = ''pending'' \<and> \<not> sent r)"

text \<open>\<open>Database.get_pending_emails\<close>: \<open>WHERE status = 'pending' AND sent = FALSE
  ORDER BY serial_number ASC LIMIT limit\<close>.\<close>

definition get_pending_emails :: "table \<Rightarrow> nat \<Rightarrow> row list" where
  "get_pending_emails tbl limit = take limit (sort_key serial_key (filter is_pending tbl))"

text \<open>\<open>Database.get_pending_emails_paginated\<close>: \<open>ORDER BY serial_number ASC, id ASC
  LIMIT limit OFFSET offset\<close>.\<close>

definition get_pending_emails_paginated :: "table \<Rightarrow> nat \<Rightarrow> nat \<Rightarrow> row list" where
  "get_pending_emails_paginated tbl offset limit =
     take limit (drop offset (sort_key (\<lambda>r. (serial_key r, row_id r)) (filter is_pending tbl)))"

text \<open>\<open>Database.get_emails_by_status\<close>: \<open>WHERE status = %s ORDER BY updated_at DESC\<close>.\<close>

definition get_emails_by_status :: "table \<Rightarrow> string \<Rightarrow> row list" where
  "get_emails_by_status tbl st =
     sort_key (\<lambda>r. - updated_at r) (filter (\<lambda>r. status r = st) tbl)"

text \<open>\<open>Database.get_stats\<close>: four independent \<open>COUNT(*)\<close> queries.\<close>

record stats =
  st_total :: nat
  st_sent :: nat
  st_pending :: nat
  st_failed :: nat

definition get_stats :: "table \<Rightarrow> stats" where
  "get_stats tbl =
     \<lparr>st_total = length tbl,
      st_sent = length (filter (\<lambda>r. sent r) tbl),
      st_pending = length (filter (\<lambda>r. status r = ''pending'' \<and> \<not> sent r) tbl),
      st_failed = length (filter (\<lambda>r. status r = ''failed'') tbl)\<rparr>"

subsection \<open>Taking the next job\<close>

text \<open>
  The worker loop takes its next job by \<open>emails = Database.get_pending_emails(limit=1)\<close>
  and \<open>emails[0]\<close>, or finds the list empty. The query is a SELECT: the table it leaves
  behind is the table it found, which the second component makes explicit.
\<close>

definition claim_next_pending :: "table \<Rightarrow> row option \<times> table" where
  "claim_next_pending tbl =
     (case get_pending_emails tbl 1 of [] \<Rightarrow> (None, tbl) | r # _ \<Rightarrow> (Some r, tbl))"

text \<open>
  The dashboard lists \<open>get_emails_by_status("pending")\<close> and sends the row whose Send
  button (key \<open>send_<id>\<close>) is pressed; filters, search and paging only narrow the list.
\<close>

definition manual_claim :: "table \<Rightarrow> int \<Rightarrow> row option \<times> table" where
  "manual_claim tbl i =
     (find (\<lambda>r. row_id r = i) (get_emails_by_status tbl ''pending''), tbl)"

subsection \<open>Sequences of store operations\<close>

text \<open>
  The four writes as one datatype, each with the arguments of its call. A statement that
  fails (the INSERT on a primary key in use) changes nothing: \<open>add_test_contacts\<close>
  catches the exception and goes on.
\<close>

datatype store_op =
    Upsert timestamp int contact
  | UpdateStatus timestamp int string "string option"
  | ResetStatus timestamp int
  | ResetAllFailed timestamp

fun apply_op :: "store_op \<Rightarrow> table \<Rightarrow> table" where
  "apply_op (Upsert now new_id c) tbl =
     (case upsert now new_id c tbl of Inl _ \<Rightarrow> tbl | Inr tbl' \<Rightarrow> tbl')"
| "apply_op (UpdateStatus now i st err) tbl = update_email_status now i st err tbl"
| "apply_op (ResetStatus now i) tbl = reset_email_status now i tbl"
| "apply_op (ResetAllFailed now) tbl = reset_all_failed now tbl"

fun run_ops :: "store_op list \<Rightarrow> table \<Rightarrow> table" where
  "run_ops [] tbl = tbl"
| "run_ops (x # xs) tbl = run_ops xs (apply_op x tbl)"

text \<open>The status invariant of the specification, for one row.\<close>

definition status_invariant :: "row \<Rightarrow> bool" where
  "status_invariant r =
     (if status r = ''sent'' then sent_at r \<noteq> None \<and> error_message r = None
      else if status r = ''failed'' then error_message r \<noteq> None \<and> sent_at r = None
      else if status r = ''pending'' then sent_at r = None \<and> error_message r = None
      else True)"

text \<open>
  The calls that apply a write to a row in the status it is meant for: an outcome is
  recorded for a row that is pending, as \<open>"sent"\<close> or as \<open>"failed"\<close> with a message
  (\<open>str(e)\<close>), and a single reset is applied to a row that is failed.
\<close>

fun op_allowed :: "table \<Rightarrow> store_op \<Rightarrow> bool" where
  "op_allowed tbl (Upsert now new_id c) = True"
| "op_allowed tbl (UpdateStatus now i st err) =
     (list_all (\<lambda>r. status r = ''pending'') (filter (\<lambda>r. row_id r = i) tbl)
      \<and> (st = ''sent'' \<or> (st = ''failed'' \<and> err \<noteq> None)))"
| "op_allowed tbl (ResetStatus now i) =
     list_all (\<lambda>r. status r = ''failed'') (filter (\<lambda>r. row_id r = i) tbl)"
| "op_allowed tbl (ResetAllFailed now) = True"

fun ops_allowed :: "table \<Rightarrow> store_op list \<Rightarrow> bool" where
  "ops_allowed tbl [] = True"
| "ops_allowed tbl (x # xs) = (op_allowed tbl x \<and> ops_allowed (apply_op x tbl) xs)"

section \<open>The campaign worker\<close>

subsection \<open>The singleton and its controls\<close>

text \<open>
  \<open>CampaignWorker\<close>: the two flags and the address in flight. \<open>thread\<close> holds the last
  thread object; what matters of it is how many threads \<open>start\<close> has launched.
\<close>

record worker =
  is_running :: bool
  is_paused :: bool
  current_email :: "string option"
  threads_started :: nat

text \<open>\<open>CampaignWorker.__new__\<close>, on first access.\<close>

definition new_worker :: worker where
  "new_worker = \<lparr>is_running = False, is_paused = False, current_email = None,
                  threads_started = 0\<rparr>"

definition start :: "worker \<Rightarrow> worker" where
  "start wk =
     (if \<not> is_running wk
      then wk\<lparr>is_running := True, is_paused := False,
              threads_started := Suc (threads_started wk)\<rparr>
      else wk)"

definition pause :: "worker \<Rightarrow> worker" where
  "pause wk = wk\<lparr>is_paused := True\<rparr>"

definition resume :: "worker \<Rightarrow> worker" where
  "resume wk = wk\<lparr>is_paused := False\<rparr>"

definition stop :: "worker \<Rightarrow> worker" where
  "stop wk = wk\<lparr>is_running := False, is_paused := False, current_email := None\<rparr>"

text \<open>
  The run mode as the dashboard's status badge reads it off the flags:
  \<open>if worker.is_running: (Paused if worker.is_paused else Running) else: Stopped\<close>.
\<close>

datatype run_mode = Stopped | Running | Paused

definition run_mode :: "worker \<Rightarrow> run_mode" where
  "run_mode wk = (if is_running wk then (if is_paused wk then Paused else Running) else Stopped)"

text \<open>
  The other thread: the controls that the dashboard may call while the loop runs.
  (\<open>start\<close> is not among them: it launches a second loop.)
\<close>

datatype control = Pause | Resume | Stop

fun apply_control :: "control \<Rightarrow> worker \<Rightarrow> worker" where
  "apply_control Pause wk = pause wk"
| "apply_control Resume wk = resume wk"
| "apply_control Stop wk = stop wk"

fun controls :: "control list \<Rightarrow> worker \<Rightarrow> worker" where
  "controls [] wk = wk"
| "controls (c # cs) wk = controls cs (apply_control c wk)"

subsection \<open>Configuration and the random delay\<close>

text \<open>
  \<open>Config.MIN_DELAY = int(os.getenv("MIN_DELAY", "600"))\<close> and \<open>MAX_DELAY\<close> likewise with
  \<open>"1800"\<close>; \<open>getenv\<close> gives the integer a set variable reads as.
\<close>

record config =
  MIN_DELAY :: int
  MAX_DELAY :: int

definition Config :: "(string \<Rightarrow> int option) \<Rightarrow> config" where
  "Config getenv =
     \<lparr>MIN_DELAY = (case getenv ''MIN_DELAY'' of None \<Rightarrow> 600 | Some v \<Rightarrow> v),
      MAX_DELAY = (case getenv ''MAX_DELAY'' of None \<Rightarrow> 1800 | Some v \<Rightarrow> v)\<rparr>"

text \<open>
  \<open>random.randint(a, b)\<close> is \<open>a + _randbelow(b - a + 1)\<close> and raises ValueError on an
  empty range. \<open>u\<close> is what the generator draws; \<open>_randbelow(n)\<close> lies below \<open>n\<close>.
\<close>

definition randint :: "int \<Rightarrow> int \<Rightarrow> nat \<Rightarrow> string + int" where
  "randint a b u =
     (if b < a then Inl ''empty range for randrange()''
      else Inr (a + int (u mod nat (b - a + 1))))"

subsection \<open>What one pass of the loop meets\<close>

text \<open>What the loop does to the outside, in order.\<close>

datatype event = Sleep nat | Print string | Send string

text \<open>
  Everything that one pass of \<open>while self.is_running\<close> reads from outside: the clock,
  the exceptions that the store, the resume lookup and the SMTP session raise (by their
  \<open>str\<close>), the generator's draw, and the controls that the dashboard calls before the
  loop condition is read, while the job is in flight, and during each one-second sleep of
  the wait.
\<close>

record env =
  clock :: timestamp
  fetch_error :: "string option"
  resume_error :: "string option"
  smtp_error :: "string option"
  sent_update_error :: "string option"
  failed_update_error :: "string option"
  draw :: nat
  before_check :: "control list"
  during_send :: "control list"
  during_wait :: "control list list"

record state =
  worker_of :: worker
  table_of :: table
  events :: "event list"

subsection \<open>Sending and recording\<close>

text \<open>
  \<open>EmailSender.send_email\<close>: an exception of \<open>get_resume_attachment\<close> leaves the function
  as it is (it is raised before the \<open>try\<close>); an exception of the SMTP session is raised
  again as \<open>Exception(f"SMTP Error: {str(e)}")\<close>; otherwise the result is \<open>True\<close>.
\<close>

definition send_email :: "string option \<Rightarrow> string option \<Rightarrow> string + bool" where
  "send_email resume_err smtp_err =
     (case resume_err of
        Some x \<Rightarrow> Inl x
      | None \<Rightarrow> (case smtp_err of Some x \<Rightarrow> Inl (''SMTP Error: '' @ x) | None \<Rightarrow> Inr True))"

text \<open>
  The inner \<open>try\<close> of \<open>process_emails\<close>: send, then record \<open>"sent"\<close>; any exception of
  either is recorded as \<open>"failed"\<close> with \<open>str(e)\<close>. An exception of that last write leaves
  the block. A write that raises changes nothing.
\<close>

definition record_failed :: "env \<Rightarrow> row \<Rightarrow> string \<Rightarrow> table \<Rightarrow> string + table" where
  "record_failed e r m tbl =
     (case failed_update_error e of
        None \<Rightarrow> Inr (update_email_status (clock e) (row_id r) ''failed'' (Some m) tbl)
      | Some x \<Rightarrow> Inl x)"

definition record_outcome :: "env \<Rightarrow> row \<Rightarrow> table \<Rightarrow> string + table" where
  "record_outcome e r tbl =
     (case send_email (resume_error e) (smtp_error e) of
        Inr _ \<Rightarrow>
          (case sent_update_error e of
             None \<Rightarrow> Inr (update_email_status (clock e) (row_id r) ''sent'' None tbl)
           | Some x \<Rightarrow> record_failed e r x tbl)
      | Inl m \<Rightarrow> record_failed e r m tbl)"

subsection \<open>The wait\<close>

text \<open>
  \<open>for _ in range(delay): if not self.is_running or self.is_paused: break; time.sleep(1)\<close>.
  The head of \<open>cs\<close> holds the controls called during the sleep that is about to begin.
\<close>

fun wait_loop :: "nat \<Rightarrow> control list list \<Rightarrow> worker \<Rightarrow> event list \<Rightarrow> worker \<times> event list" where
  "wait_loop 0 cs wk ev = (wk, ev)"
| "wait_loop (Suc n) cs wk ev =
     (if \<not> is_running wk \<or> is_paused wk then (wk, ev)
      else wait_loop n (tl cs) (controls (case cs of [] \<Rightarrow> [] | c # _ \<Rightarrow> c) wk)
             (ev @ [Sleep 1]))"

text \<open>
  \<open>if self.is_running and not self.is_paused: delay = random.randint(...); for ...\<close>.
  \<open>range\<close> of a delay that is not positive is empty.
\<close>

definition pace :: "config \<Rightarrow> env \<Rightarrow> worker \<Rightarrow> event list \<Rightarrow> string + worker \<times> event list" where
  "pace cfg e wk ev =
     (if is_running wk \<and> \<not> is_paused wk
      then (case randint (MIN_DELAY cfg) (MAX_DELAY cfg) (draw e) of
              Inl x \<Rightarrow> Inl x
            | Inr delay \<Rightarrow> Inr (wait_loop (nat delay) (during_wait e) wk ev))
      else Inr (wk, ev))"

subsection \<open>The loop\<close>

text \<open>The outer handler: \<open>print(f"Worker error: {e}"); time.sleep(5)\<close>.\<close>

definition worker_error :: "string \<Rightarrow> state \<Rightarrow> state" where
  "worker_error x s = s\<lparr>events := events s @ [Print (''Worker error: '' @ x), Sleep 5]\<rparr>"

text \<open>
  The outer \<open>try\<close>. The result says whether the loop goes on (\<open>False\<close> is the \<open>break\<close> on
  an empty fetch) and gives the state then. The text of the message is produced by
  \<open>generate_email\<close>, which catches its own exceptions, and plays no part here.
\<close>

definition body :: "config \<Rightarrow> env \<Rightarrow> state \<Rightarrow> bool \<times> state" where
  "body cfg e s =
     (case fetch_error e of
        Some x \<Rightarrow> (True, worker_error x s)
      | None \<Rightarrow>
          (case claim_next_pending (table_of s) of
             (None, tbl) \<Rightarrow>
               (False, s\<lparr>worker_of := (worker_of s)\<lparr>is_running := False, current_email := None\<rparr>,
                         table_of := tbl\<rparr>)
           | (Some r, tbl) \<Rightarrow>
               (let wk1 = controls (during_send e) ((worker_of s)\<lparr>current_email := Some (email r)\<rparr>);
                    ev1 = events s @ [Send (email r)]
                in case record_outcome e r tbl of
                     Inl x \<Rightarrow>
                       (True, worker_error x \<lparr>worker_of = wk1, table_of = tbl, events = ev1\<rparr>)
                   | Inr tbl' \<Rightarrow>
                       (case pace cfg e (wk1\<lparr>current_email := None\<rparr>) ev1 of
                          Inl x \<Rightarrow>
                            (True, worker_error x
                               \<lparr>worker_of = wk1\<lparr>current_email := None\<rparr>, table_of = tbl',
                                events = ev1\<rparr>)
                        | Inr (wk2, ev2) \<Rightarrow>
                            (True, \<lparr>worker_of = wk2, table_of = tbl', events = ev2\<rparr>)))))"

text \<open>
  One reading of \<open>while self.is_running\<close> and what follows it: the loop ends, or holds
  for a second while paused, or runs the \<open>try\<close>.
\<close>

definition iteration :: "config \<Rightarrow> env \<Rightarrow> state \<Rightarrow> bool \<times> state" where
  "iteration cfg e s =
     (let s0 = s\<lparr>worker_of := controls (before_check e) (worker_of s)\<rparr>
      in if \<not> is_running (worker_of s0) then (False, s0)
         else if is_paused (worker_of s0) then (True, s0\<lparr>events := events s0 @ [Sleep 1]\<rparr>)
         else body cfg e s0)"

text \<open>
  The loop over the passes that \<open>es\<close> describes. \<open>(True, s)\<close>: the loop is still going
  after all of them. \<open>(False, s)\<close>: it has ended, and \<open>self.current_email = None\<close> after
  it has run.
\<close>

fun iterations :: "config \<Rightarrow> env list \<Rightarrow> state \<Rightarrow> bool \<times> state" where
  "iterations cfg [] s = (True, s)"
| "iterations cfg (e # es) s =
     (case iteration cfg e s of
        (True, s') \<Rightarrow> iterations cfg es s'
      | (False, s') \<Rightarrow> (False, s'\<lparr>worker_of := (worker_of s')\<lparr>current_email := None\<rparr>\<rparr>))"

text \<open>\<open>CampaignWorker.process_emails\<close>: the final state if the loop returns within \<open>es\<close>.\<close>

definition process_emails :: "config \<Rightarrow> env list \<Rightarrow> state \<Rightarrow> state option" where
  "process_emails cfg es s =
     (case iterations cfg es s of (False, s') \<Rightarrow> Some s' | (True, s') \<Rightarrow> None)"

subsection \<open>The retrying query helper\<close>

text \<open>
  \<open>Database.execute_query\<close>: the statement is run in a \<open>try\<close>; on \<open>psycopg2.Error\<close> the
  connection is dropped and the statement run once more, outside any handler. The second
  component counts the runs. \<open>init_tables\<close> is its only caller.
\<close>

datatype 'a attempt = Returned 'a | Psycopg2_error string | Other_error string

definition execute_query :: "'a attempt \<Rightarrow> 'a attempt \<Rightarrow> (string + 'a) \<times> nat" where
  "execute_query first_run second_run =
     (case first_run of
        Returned v \<Rightarrow> (Inr v, 1)
      | Other_error x \<Rightarrow> (Inl x, 1)
      | Psycopg2_error x \<Rightarrow>
          (case second_run of
             Returned v \<Rightarrow> (Inr v, 2)
           | Psycopg2_error y \<Rightarrow> (Inl y, 2)
           | Other_error y \<Rightarrow> (Inl y, 2)))"

section \<open>Sample data\<close>

definition priya :: contact where
  "priya = \<lparr>c_serial_number = 0, c_name = ''Priya Sharma'',
            c_email = ''chiragj2019+google@gmail.com'',
            c_title = Some ''HR Manager'', c_company = Some ''Google India''\<rparr>"

definition rahul :: contact where
  "rahul = \<lparr>c_serial_number = 0, c_name = ''Rahul Verma'',
            c_email = ''chiragj2019+microsoft@gmail.com'',
            c_title = Some ''Talent Acquisition Lead'', c_company = Some ''Microsoft''\<rparr>"

text \<open>The table after Priya Sharma has been inserted at time 1 with id 1.\<close>

definition one_pending :: table where
  "one_pending = [inserted_row 1 1 priya]"

text \<open>
  The same row after a send was recorded as sent at time 5 and another attempt on the
  same row as failed at time 7.
\<close>

definition sent_then_failed :: table where
  "sent_then_failed =
     update_email_status 7 1 ''failed'' (Some ''boom'')
       (update_email_status 5 1 ''sent'' None one_pending)"

text \<open>
  Two contacts are added; the first send to Priya fails and is retried with success, the
  send to Rahul fails, all failed rows are reset, and Priya is submitted again.
\<close>

definition retry_story :: "store_op list" where
  "retry_story =
     [Upsert 1 1 priya, Upsert 2 2 rahul,
      UpdateStatus 3 1 ''failed'' (Some ''boom''), ResetStatus 4 1,
      UpdateStatus 5 1 ''sent'' None, UpdateStatus 6 2 ''failed'' (Some ''boom''),
      ResetAllFailed 7, Upsert 8 3 priya]"

text \<open>
  Two pending rows with the same \<open>serial_number\<close> 0 that a scan yields with id 2 before
  id 1 (PostgreSQL stores the new version of an updated row behind the rows written
  before the update, so this is the scan order once row 1 has been updated).
\<close>

definition tied_pending :: table where
  "tied_pending = [inserted_row 2 2 rahul, inserted_row 1 1 priya]"

text \<open>Three pending rows with \<open>serial_number\<close> 2, 0 and 1, inserted in that order.\<close>

definition three_lanes :: table where
  "three_lanes =
     [inserted_row 1 1 (priya\<lparr>c_serial_number := 2\<rparr>),
      inserted_row 2 2 (rahul\<lparr>c_serial_number := 0\<rparr>),
      inserted_row 3 3 (rahul\<lparr>c_serial_number := 1, c_email := ''c@example.org''\<rparr>)]"


text \<open>A pass in which nothing fails and the dashboard calls nothing.\<close>

definition quiet :: env where
  "quiet = \<lparr>clock = 10, fetch_error = None, resume_error = None, smtp_error = None,
            sent_update_error = None, failed_update_error = None, draw = 0,
            before_check = [], during_send = [], during_wait = []\<rparr>"

text \<open>Both delays set to 0 in the environment.\<close>

definition no_delay :: config where
  "no_delay = Config (\<lambda>v. if v = ''MIN_DELAY'' \<or> v = ''MAX_DELAY'' then Some 0 else None)"

text \<open>Two contacts inserted, and the worker started on them.\<close>

definition two_pending :: table where
  "two_pending = [inserted_row 1 1 priya, inserted_row 2 2 rahul]"

definition campaign :: state where
  "campaign = \<lparr>worker_of = start new_worker, table_of = two_pending, events = []\<rparr>"

text \<open>A pass in which the SMTP session raises \<open>boom\<close>, and one in which the fetch raises.\<close>

definition bounce :: env where
  "bounce = quiet\<lparr>smtp_error := Some ''boom''\<rparr>"

definition store_down :: env where
  "store_down = quiet\<lparr>fetch_error := Some ''connection lost''\<rparr>"





section \<open>Statistics\<close>

lemma upsert_empty: "upsert 1 1 priya [] = Inr one_pending"
  by (simp add: upsert_def one_pending_def)

lemma sent_then_failed_row:
  "sent_then_failed =
     [(inserted_row 1 1 priya)\<lparr>status := ''failed'', sent := True,
        error_message := Some ''boom'', sent_at := Some 5, updated_at := 7\<rparr>]"
  by (simp add: sent_then_failed_def one_pending_def update_email_status_def inserted_row_def)

text \<open>
  C10. \<open>get_stats\<close> counts as sent the rows whose \<open>sent\<close> flag is set, whatever their
  status, as pending the rows with status pending and the flag clear, and as failed the
  rows with status failed. The three counts do not partition the table: in the table
  \<open>sent_then_failed\<close> (one row, status failed, flag set) the total is 1 while sent,
  pending and failed add up to 2, the one row being counted as sent and as failed.
\<close>

theorem get_stats_not_a_partition:
  "st_sent (get_stats tbl) = length (filter sent tbl)
   \<and> st_pending (get_stats tbl)
       = length (filter (\<lambda>r. status r = ''pending'' \<and> \<not> sent r) tbl)
   \<and> st_failed (get_stats tbl) = length (filter (\<lambda>r. status r = ''failed'') tbl)
   \<and> st_total (get_stats tbl) = length tbl
   \<and> get_stats sent_then_failed = \<lparr>st_total = 1, st_sent = 1, st_pending = 0, st_failed = 1\<rparr>
   \<and> st_total (get_stats sent_then_failed)
       \<noteq> st_sent (get_stats sent_then_failed) + st_pending (get_stats sent_then_failed)
         + st_failed (get_stats sent_then_failed)
   \<and> filter sent sent_then_failed = sent_then_failed
   \<and> filter (\<lambda>r. status r = ''failed'') sent_then_failed = sent_then_failed
   \<and> length sent_then_failed = 1"
  by (simp add: get_stats_def sent_then_failed_row inserted_row_def)

section \<open>Retry\<close>

lemma reset_row_fields:
  "status (reset_row now r) = ''pending'' \<and> \<not> sent (reset_row now r)
   \<and> error_message (reset_row now r) = None \<and> sent_at (reset_row now r) = sent_at r"
  by (simp add: reset_row_def)

text \<open>
  C4. The failed row of \<open>sent_then_failed\<close> carries \<open>sent_at = 5\<close>. Both
  \<open>reset_email_status\<close> and \<open>reset_all_failed\<close> turn it into a pending row with
  \<open>error_message\<close> NULL, and both leave \<open>sent_at = 5\<close> in place: the retry does not clear
  \<open>sent_at\<close>, unlike the upsert and the reset statement of \<open>add_tests.py\<close>.
\<close>

theorem reset_leaves_sent_at:
  "map status sent_then_failed = [''failed'']
   \<and> map status (reset_email_status 9 1 sent_then_failed) = [''pending'']
   \<and> map error_message (reset_email_status 9 1 sent_then_failed) = [None]
   \<and> map sent_at (reset_email_status 9 1 sent_then_failed) = [Some 5]
   \<and> reset_all_failed 9 sent_then_failed = reset_email_status 9 1 sent_then_failed"
  by (simp add: sent_then_failed_row reset_email_status_def reset_all_failed_def
      reset_row_def inserted_row_def)

section \<open>Upsert\<close>

lemma conflict_update_email: "email (conflict_update c r) = email r"
  by (simp add: conflict_update_def)

lemma conflict_update_twice: "conflict_update c (conflict_update c r) = conflict_update c r"
  by (simp add: conflict_update_def)

lemma map_email_conflict:
  "map email (map (\<lambda>r. if email r = e then conflict_update c r else r) tbl) = map email tbl"
  by (induction tbl) (simp_all add: conflict_update_email)

lemma upsert_existing:
  "c_email c \<in> set (map email tbl) \<Longrightarrow>
   upsert now i c tbl
     = Inr (map (\<lambda>r. if email r = c_email c then conflict_update c r else r) tbl)"
  by (simp add: upsert_def)

lemma upsert_has_email:
  assumes "upsert now i c tbl = Inr tbl'"
  shows "c_email c \<in> set (map email tbl')"
proof (cases "c_email c \<in> set (map email tbl)")
  case True
  with assms have "tbl' = map (\<lambda>r. if email r = c_email c then conflict_update c r else r) tbl"
    by (simp add: upsert_existing)
  with True show ?thesis by (simp only: map_email_conflict)
next
  case False
  with assms have "tbl' = tbl @ [inserted_row now i c]"
    by (simp add: upsert_def split: if_splits)
  then show ?thesis by (simp add: inserted_row_def)
qed

lemma upsert_distinct:
  assumes "distinct (map email tbl)" and "upsert now i c tbl = Inr tbl'"
  shows "distinct (map email tbl')"
proof (cases "c_email c \<in> set (map email tbl)")
  case True
  with assms(2) have "tbl' = map (\<lambda>r. if email r = c_email c then conflict_update c r else r) tbl"
    by (simp add: upsert_existing)
  with assms(1) show ?thesis by (simp only: map_email_conflict)
next
  case False
  with assms(2) have "tbl' = tbl @ [inserted_row now i c]"
    by (simp add: upsert_def split: if_splits)
  with assms(1) False show ?thesis by (simp add: inserted_row_def)
qed

lemma filter_unique_key:
  "distinct (map f xs) \<Longrightarrow> k \<in> set (map f xs) \<Longrightarrow> \<exists>x. filter (\<lambda>r. f r = k) xs = [x]"
proof (induction xs)
  case Nil
  then show ?case by simp
next
  case (Cons a xs)
  show ?case
  proof (cases "f a = k")
    case True
    with Cons.prems have "k \<notin> set (map f xs)" by simp
    then have "filter (\<lambda>r. f r = k) xs = []" by (auto simp: filter_empty_conv)
    with True show ?thesis by simp
  next
    case False
    with Cons show ?thesis by auto
  qed
qed

lemma filter_others_conflict:
  "filter (\<lambda>r. email r \<noteq> e) (map (\<lambda>r. if email r = e then conflict_update c r else r) tbl)
     = filter (\<lambda>r. email r \<noteq> e) tbl"
  by (induction tbl) (simp_all add: conflict_update_email)

lemma filter_same_conflict:
  "filter (\<lambda>r. email r = e) (map (\<lambda>r. if email r = e then conflict_update c r else r) tbl)
     = map (conflict_update c) (filter (\<lambda>r. email r = e) tbl)"
  by (induction tbl) (simp_all add: conflict_update_email)

lemma conflict_update_fields:
  "status (conflict_update c x) = ''pending'' \<and> \<not> sent (conflict_update c x)
   \<and> error_message (conflict_update c x) = None \<and> sent_at (conflict_update c x) = None
   \<and> name (conflict_update c x) = c_name c \<and> title (conflict_update c x) = c_title c
   \<and> company (conflict_update c x) = c_company c"
  by (simp add: conflict_update_def)

lemma inserted_row_fields:
  "email (inserted_row now i c) = c_email c
   \<and> status (inserted_row now i c) = ''pending'' \<and> \<not> sent (inserted_row now i c)
   \<and> error_message (inserted_row now i c) = None \<and> sent_at (inserted_row now i c) = None
   \<and> name (inserted_row now i c) = c_name c \<and> title (inserted_row now i c) = c_title c
   \<and> company (inserted_row now i c) = c_company c"
  by (simp add: inserted_row_def)

lemma upsert_stores:
  assumes uniq: "distinct (map email tbl)"
    and fresh: "c_email c \<in> set (map email tbl) \<or> i \<notin> set (map row_id tbl)"
  shows "\<exists>tbl1 r1. upsert now i c tbl = Inr tbl1
           \<and> filter (\<lambda>r. email r = c_email c) tbl1 = [r1]
           \<and> status r1 = ''pending'' \<and> \<not> sent r1
           \<and> error_message r1 = None \<and> sent_at r1 = None
           \<and> name r1 = c_name c \<and> title r1 = c_title c \<and> company r1 = c_company c
           \<and> filter (\<lambda>r. email r \<noteq> c_email c) tbl1 = filter (\<lambda>r. email r \<noteq> c_email c) tbl
           \<and> length tbl1
               = (if c_email c \<in> set (map email tbl) then length tbl else Suc (length tbl))"
proof (cases "c_email c \<in> set (map email tbl)")
  case True
  let ?g = "\<lambda>r. if email r = c_email c then conflict_update c r else r"
  have up: "upsert now i c tbl = Inr (map ?g tbl)" using True by (rule upsert_existing)
  obtain x where x: "filter (\<lambda>r. email r = c_email c) tbl = [x]"
    using filter_unique_key [OF uniq True] by blast
  have one: "filter (\<lambda>r. email r = c_email c) (map ?g tbl) = [conflict_update c x]"
    by (simp add: filter_same_conflict x)
  have others: "filter (\<lambda>r. email r \<noteq> c_email c) (map ?g tbl)
      = filter (\<lambda>r. email r \<noteq> c_email c) tbl"
    by (rule filter_others_conflict)
  have len: "length (map ?g tbl)
      = (if c_email c \<in> set (map email tbl) then length tbl else Suc (length tbl))"
    using True by simp
  show ?thesis
    using up one conflict_update_fields [of c x] others len by blast
next
  case False
  with fresh have "i \<notin> set (map row_id tbl)" by blast
  with False have up: "upsert now i c tbl = Inr (tbl @ [inserted_row now i c])"
    by (simp add: upsert_def)
  from False have none: "filter (\<lambda>r. email r = c_email c) tbl = []"
    by (force simp: filter_empty_conv)
  have one: "filter (\<lambda>r. email r = c_email c) (tbl @ [inserted_row now i c])
      = [inserted_row now i c]"
    by (simp add: none inserted_row_fields)
  have others: "filter (\<lambda>r. email r \<noteq> c_email c) (tbl @ [inserted_row now i c])
      = filter (\<lambda>r. email r \<noteq> c_email c) tbl"
    by (simp add: inserted_row_fields)
  have len: "length (tbl @ [inserted_row now i c])
      = (if c_email c \<in> set (map email tbl) then length tbl else Suc (length tbl))"
    using False by simp
  show ?thesis
    using up one inserted_row_fields [of now i c] others len by blast
qed

text \<open>
  C5. In a table with one row per email (the UNIQUE constraint), submitting a contact
  whose email is already there, or else with an id that is not in use (what the SERIAL
  sequence supplies), succeeds and leaves exactly one row with that email, pending and
  with the contact's \<open>name\<close>, \<open>title\<close> and \<open>company\<close>; the rows of other emails are
  untouched, and the table grows by one row only if the email was new. Submitting a
  contact with the same email again succeeds, adds no row, and again leaves exactly one
  row with that email: status pending, \<open>sent\<close> false, \<open>error_message\<close> and \<open>sent_at\<close>
  NULL, and \<open>name\<close>, \<open>title\<close>, \<open>company\<close> those of the latest submission, the other rows
  still untouched. Submitting that same contact once more changes nothing.
\<close>

theorem upsert_idempotent:
  assumes uniq: "distinct (map email tbl)"
    and fresh: "c_email c1 \<in> set (map email tbl) \<or> i1 \<notin> set (map row_id tbl)"
    and same: "c_email c2 = c_email c1"
  shows "\<exists>tbl1 tbl2 r1 r2.
           upsert t1 i1 c1 tbl = Inr tbl1
         \<and> filter (\<lambda>r. email r = c_email c1) tbl1 = [r1]
         \<and> name r1 = c_name c1 \<and> title r1 = c_title c1 \<and> company r1 = c_company c1
         \<and> status r1 = ''pending'' \<and> \<not> sent r1
         \<and> error_message r1 = None \<and> sent_at r1 = None
         \<and> filter (\<lambda>r. email r \<noteq> c_email c1) tbl1 = filter (\<lambda>r. email r \<noteq> c_email c1) tbl
         \<and> length tbl1
             = (if c_email c1 \<in> set (map email tbl) then length tbl else Suc (length tbl))
         \<and> upsert t2 i2 c2 tbl1 = Inr tbl2
         \<and> length tbl2 = length tbl1
         \<and> filter (\<lambda>r. email r = c_email c1) tbl2 = [r2]
         \<and> name r2 = c_name c2 \<and> title r2 = c_title c2 \<and> company r2 = c_company c2
         \<and> status r2 = ''pending'' \<and> \<not> sent r2
         \<and> error_message r2 = None \<and> sent_at r2 = None
         \<and> filter (\<lambda>r. email r \<noteq> c_email c1) tbl2 = filter (\<lambda>r. email r \<noteq> c_email c1) tbl
         \<and> upsert t3 i3 c2 tbl2 = Inr tbl2"
proof -
  from upsert_stores [OF uniq fresh, of t1]
  obtain tbl1 r1 where first: "upsert t1 i1 c1 tbl = Inr tbl1"
    and one1: "filter (\<lambda>r. email r = c_email c1) tbl1 = [r1]"
    and f1: "status r1 = ''pending''" "\<not> sent r1" "error_message r1 = None" "sent_at r1 = None"
      "name r1 = c_name c1" "title r1 = c_title c1" "company r1 = c_company c1"
    and oth1: "filter (\<lambda>r. email r \<noteq> c_email c1) tbl1 = filter (\<lambda>r. email r \<noteq> c_email c1) tbl"
    and len1: "length tbl1
        = (if c_email c1 \<in> set (map email tbl) then length tbl else Suc (length tbl))"
    by blast
  have d1: "distinct (map email tbl1)" using uniq first by (rule upsert_distinct)
  have in1: "c_email c2 \<in> set (map email tbl1)"
    using upsert_has_email [OF first] same by simp
  then have fresh2: "c_email c2 \<in> set (map email tbl1) \<or> i2 \<notin> set (map row_id tbl1)" by blast
  from upsert_stores [OF d1 fresh2, of t2]
  obtain tbl2 r2 where second: "upsert t2 i2 c2 tbl1 = Inr tbl2"
    and one2: "filter (\<lambda>r. email r = c_email c2) tbl2 = [r2]"
    and f2: "status r2 = ''pending''" "\<not> sent r2" "error_message r2 = None" "sent_at r2 = None"
      "name r2 = c_name c2" "title r2 = c_title c2" "company r2 = c_company c2"
    and oth2: "filter (\<lambda>r. email r \<noteq> c_email c2) tbl2 = filter (\<lambda>r. email r \<noteq> c_email c2) tbl1"
    and len2: "length tbl2
        = (if c_email c2 \<in> set (map email tbl1) then length tbl1 else Suc (length tbl1))"
    by blast
  have len2': "length tbl2 = length tbl1" using len2 in1 by simp
  have one2': "filter (\<lambda>r. email r = c_email c1) tbl2 = [r2]" using one2 same by simp
  have oth2': "filter (\<lambda>r. email r \<noteq> c_email c1) tbl2 = filter (\<lambda>r. email r \<noteq> c_email c1) tbl"
    using oth2 oth1 same by simp
  let ?g = "\<lambda>r. if email r = c_email c2 then conflict_update c2 r else r"
  have tbl2: "tbl2 = map ?g tbl1"
    using second upsert_existing [OF in1, of t2 i2] by simp
  have in2: "c_email c2 \<in> set (map email tbl2)"
    using upsert_has_email [OF second] .
  have gg: "map ?g (map ?g tbl1) = map ?g tbl1"
    by (simp add: conflict_update_email conflict_update_twice)
  have third: "upsert t3 i3 c2 tbl2 = Inr tbl2"
    using upsert_existing [OF in2, of t3 i3] gg unfolding tbl2 by simp
  show ?thesis
    using first one1 f1 oth1 len1 second len2' one2' f2 oth2' third by blast
qed

lemma one_pending_fields:
  "distinct (map email one_pending) \<and> 2 \<notin> set (map row_id one_pending)
   \<and> c_email rahul \<notin> set (map email one_pending)"
  by (simp add: one_pending_def inserted_row_def priya_def rahul_def)

theorem upsert_idempotent_witness:
  "distinct (map email one_pending) \<and> 2 \<notin> set (map row_id one_pending)
   \<and> c_email (rahul\<lparr>c_name := ''R. Verma''\<rparr>) = c_email rahul
   \<and> (\<exists>tbl1 tbl2 r2.
         upsert 2 2 rahul one_pending = Inr tbl1 \<and> length tbl1 = 2
       \<and> upsert 3 3 (rahul\<lparr>c_name := ''R. Verma''\<rparr>) tbl1 = Inr tbl2 \<and> length tbl2 = 2
       \<and> filter (\<lambda>r. email r = c_email rahul) tbl2 = [r2]
       \<and> name r2 = ''R. Verma'' \<and> status r2 = ''pending''
       \<and> error_message r2 = None \<and> sent_at r2 = None
       \<and> upsert 4 4 (rahul\<lparr>c_name := ''R. Verma''\<rparr>) tbl2 = Inr tbl2)"
proof -
  have uniq: "distinct (map email one_pending)"
    and fresh: "c_email rahul \<in> set (map email one_pending) \<or> 2 \<notin> set (map row_id one_pending)"
    and new: "c_email rahul \<notin> set (map email one_pending)"
    and id2: "2 \<notin> set (map row_id one_pending)"
    using one_pending_fields by simp_all
  have same: "c_email (rahul\<lparr>c_name := ''R. Verma''\<rparr>) = c_email rahul" by simp
  have len: "length one_pending = 1" by (simp add: one_pending_def)
  from upsert_idempotent [OF uniq fresh same, of 2 3 3 4 4]
  obtain tbl1 tbl2 r2 where "upsert 2 2 rahul one_pending = Inr tbl1"
    and "length tbl1
       = (if c_email rahul \<in> set (map email one_pending) then length one_pending
          else Suc (length one_pending))"
    and "upsert 3 3 (rahul\<lparr>c_name := ''R. Verma''\<rparr>) tbl1 = Inr tbl2"
    and "length tbl2 = length tbl1"
    and "filter (\<lambda>r. email r = c_email rahul) tbl2 = [r2]"
    and "name r2 = c_name (rahul\<lparr>c_name := ''R. Verma''\<rparr>)"
    and "status r2 = ''pending''" and "error_message r2 = None" and "sent_at r2 = None"
    and "upsert 4 4 (rahul\<lparr>c_name := ''R. Verma''\<rparr>) tbl2 = Inr tbl2"
    by blast
  then have "upsert 2 2 rahul one_pending = Inr tbl1 \<and> length tbl1 = 2
       \<and> upsert 3 3 (rahul\<lparr>c_name := ''R. Verma''\<rparr>) tbl1 = Inr tbl2 \<and> length tbl2 = 2
       \<and> filter (\<lambda>r. email r = c_email rahul) tbl2 = [r2]
       \<and> name r2 = ''R. Verma'' \<and> status r2 = ''pending''
       \<and> error_message r2 = None \<and> sent_at r2 = None
       \<and> upsert 4 4 (rahul\<lparr>c_name := ''R. Verma''\<rparr>) tbl2 = Inr tbl2"
    using new len by simp
  then have "\<exists>tbl1 tbl2 r2.
         upsert 2 2 rahul one_pending = Inr tbl1 \<and> length tbl1 = 2
       \<and> upsert 3 3 (rahul\<lparr>c_name := ''R. Verma''\<rparr>) tbl1 = Inr tbl2 \<and> length tbl2 = 2
       \<and> filter (\<lambda>r. email r = c_email rahul) tbl2 = [r2]
       \<and> name r2 = ''R. Verma'' \<and> status r2 = ''pending''
       \<and> error_message r2 = None \<and> sent_at r2 = None
       \<and> upsert 4 4 (rahul\<lparr>c_name := ''R. Verma''\<rparr>) tbl2 = Inr tbl2"
    by blast
  with uniq id2 same show ?thesis by blast
qed

section \<open>The status invariant\<close>

lemma inserted_row_invariant: "status_invariant (inserted_row now i c)"
  by (simp add: status_invariant_def inserted_row_def)

lemma conflict_update_invariant: "status_invariant (conflict_update c r)"
  by (simp add: status_invariant_def conflict_update_def)

lemma reset_row_invariant:
  "status_invariant r \<Longrightarrow> status r = ''failed'' \<Longrightarrow> status_invariant (reset_row now r)"
  by (simp add: status_invariant_def reset_row_def)

lemma sent_row_invariant:
  "status_invariant r \<Longrightarrow> status r = ''pending'' \<Longrightarrow>
   status_invariant (r\<lparr>status := ''sent'', sent := True, sent_at := Some now, updated_at := now\<rparr>)"
  by (simp add: status_invariant_def)

lemma failed_row_invariant:
  "status_invariant r \<Longrightarrow> status r = ''pending'' \<Longrightarrow>
   status_invariant (r\<lparr>status := ''failed'', error_message := Some m, updated_at := now\<rparr>)"
  by (simp add: status_invariant_def)

lemma list_all_map_rows:
  assumes "list_all P tbl" and "\<And>r. r \<in> set tbl \<Longrightarrow> P r \<Longrightarrow> P (f r)"
  shows "list_all P (map f tbl)"
  using assms by (induction tbl) simp_all

lemma upsert_invariant:
  assumes "list_all status_invariant tbl"
  shows "list_all status_invariant (apply_op (Upsert now i c) tbl)"
proof (cases "c_email c \<in> set (map email tbl)")
  case True
  then have eq: "apply_op (Upsert now i c) tbl
      = map (\<lambda>r. if email r = c_email c then conflict_update c r else r) tbl"
    by (simp add: upsert_existing)
  show ?thesis unfolding eq
    by (rule list_all_map_rows [OF assms]) (simp add: conflict_update_invariant)
next
  case False
  then show ?thesis using assms
    by (simp add: upsert_def inserted_row_invariant)
qed

lemma update_invariant:
  assumes inv: "list_all status_invariant tbl"
    and ok: "op_allowed tbl (UpdateStatus now i st err)"
  shows "list_all status_invariant (apply_op (UpdateStatus now i st err) tbl)"
proof -
  have pend: "\<And>r. r \<in> set tbl \<Longrightarrow> row_id r = i \<Longrightarrow> status r = ''pending''"
    using ok by (simp add: list_all_iff)
  have st: "st = ''sent'' \<or> (st = ''failed'' \<and> err \<noteq> None)"
    using ok by simp
  show ?thesis
  proof (cases "st = ''sent''")
    case True
    have eq: "apply_op (UpdateStatus now i st err) tbl
        = map (\<lambda>r. if row_id r = i
                     then r\<lparr>status := ''sent'', sent := True, sent_at := Some now,
                            updated_at := now\<rparr>
                     else r) tbl"
      using True by (simp add: update_email_status_def)
    show ?thesis unfolding eq
      by (rule list_all_map_rows [OF inv]) (simp add: sent_row_invariant pend)
  next
    case False
    with st obtain m where f: "st = ''failed''" and e: "err = Some m" by auto
    have eq: "apply_op (UpdateStatus now i st err) tbl
        = map (\<lambda>r. if row_id r = i
                     then r\<lparr>status := ''failed'', error_message := Some m, updated_at := now\<rparr>
                     else r) tbl"
      using f e by (simp add: update_email_status_def)
    show ?thesis unfolding eq
      by (rule list_all_map_rows [OF inv]) (simp add: failed_row_invariant pend)
  qed
qed

lemma reset_invariant:
  assumes inv: "list_all status_invariant tbl"
    and ok: "op_allowed tbl (ResetStatus now i)"
  shows "list_all status_invariant (apply_op (ResetStatus now i) tbl)"
proof -
  have failed: "\<And>r. r \<in> set tbl \<Longrightarrow> row_id r = i \<Longrightarrow> status r = ''failed''"
    using ok by (simp add: list_all_iff)
  have eq: "apply_op (ResetStatus now i) tbl
      = map (\<lambda>r. if row_id r = i then reset_row now r else r) tbl"
    by (simp add: reset_email_status_def)
  show ?thesis unfolding eq
    by (rule list_all_map_rows [OF inv]) (simp add: reset_row_invariant failed)
qed

lemma reset_all_invariant:
  assumes inv: "list_all status_invariant tbl"
  shows "list_all status_invariant (apply_op (ResetAllFailed now) tbl)"
proof -
  have eq: "apply_op (ResetAllFailed now) tbl
      = map (\<lambda>r. if status r = ''failed'' then reset_row now r else r) tbl"
    by (simp add: reset_all_failed_def)
  show ?thesis unfolding eq
    by (rule list_all_map_rows [OF inv]) (simp add: reset_row_invariant)
qed

lemma apply_op_invariant:
  "list_all status_invariant tbl \<Longrightarrow> op_allowed tbl x
     \<Longrightarrow> list_all status_invariant (apply_op x tbl)"
proof (cases x)
  case (Upsert now i c)
  assume "list_all status_invariant tbl"
  then show ?thesis unfolding Upsert by (rule upsert_invariant)
next
  case (UpdateStatus now i st err)
  assume "list_all status_invariant tbl" "op_allowed tbl x"
  then show ?thesis unfolding UpdateStatus by (rule update_invariant)
next
  case (ResetStatus now i)
  assume "list_all status_invariant tbl" "op_allowed tbl x"
  then show ?thesis unfolding ResetStatus by (rule reset_invariant)
next
  case (ResetAllFailed now)
  assume "list_all status_invariant tbl"
  then show ?thesis unfolding ResetAllFailed by (rule reset_all_invariant)
qed

text \<open>
  C3, as the code has it. The status invariant (sent: \<open>sent_at\<close> set and
  \<open>error_message\<close> NULL; failed: \<open>error_message\<close> set and \<open>sent_at\<close> NULL; pending: both
  NULL) holds of every row after every sequence of upserts, outcome recordings, resets
  of one row and resets of all failed rows, provided each outcome is recorded for a row
  that is pending, as \<open>"sent"\<close> or as \<open>"failed"\<close> with a message, and each single reset is
  applied to a row that is failed.
\<close>

theorem status_invariant_kept:
  "list_all status_invariant tbl \<Longrightarrow> ops_allowed tbl ops
     \<Longrightarrow> list_all status_invariant (run_ops ops tbl)"
proof (induction ops arbitrary: tbl)
  case Nil
  then show ?case by simp
next
  case (Cons x xs)
  from Cons.prems have "list_all status_invariant (apply_op x tbl)"
    by (simp add: apply_op_invariant)
  moreover from Cons.prems have "ops_allowed (apply_op x tbl) xs" by simp
  ultimately show ?case by (simp add: Cons.IH)
qed

lemma retry_story_allowed: "ops_allowed [] retry_story"
  by (simp add: retry_story_def upsert_def inserted_row_def priya_def rahul_def
      update_email_status_def reset_email_status_def reset_row_def)

theorem status_invariant_kept_witness:
  "list_all status_invariant [] \<and> ops_allowed [] retry_story
   \<and> list_all status_invariant (run_ops retry_story [])"
  using status_invariant_kept [of "[]" retry_story] retry_story_allowed by simp

text \<open>
  C3, as stated, fails: the writes themselves check nothing. Recording \<open>"failed"\<close> and
  then \<open>"sent"\<close> for the same row (two senders on one row) leaves a row with status sent
  whose \<open>error_message\<close> is still \<open>boom\<close>, since the \<open>"sent"\<close> branch of
  \<open>update_email_status\<close> does not touch \<open>error_message\<close>.
\<close>

theorem status_invariant_broken:
  "\<not> list_all status_invariant
       (run_ops [Upsert 1 1 priya, UpdateStatus 3 1 ''failed'' (Some ''boom''),
                 UpdateStatus 5 1 ''sent'' None] [])"
  by (simp add: upsert_def inserted_row_def priya_def update_email_status_def
      status_invariant_def)

section \<open>The order of fetches and the claim\<close>

lemma priya_serial: "c_serial_number priya = 0"
  by (simp add: priya_def)

lemma rahul_serial: "c_serial_number rahul = 0"
  by (simp add: rahul_def)

lemma inserted_row_pending: "is_pending (inserted_row now i c)"
  by (simp add: is_pending_def inserted_row_def)

lemma inserted_row_key: "serial_key (inserted_row now i c) = (0, c_serial_number c)"
  by (simp add: serial_key_def inserted_row_def)

lemma inserted_row_id: "row_id (inserted_row now i c) = i"
  by (simp add: inserted_row_def)

lemma inserted_row_serial: "serial_number (inserted_row now i c) = Some (c_serial_number c)"
  by (simp add: inserted_row_def)

lemma inserted_row_status: "status (inserted_row now i c) = ''pending''"
  by (simp add: inserted_row_def)

lemma update_sent_hit:
  "row_id r = i \<Longrightarrow> update_email_status now i ''sent'' err (r # tbl)
     = r\<lparr>status := ''sent'', sent := True, sent_at := Some now, updated_at := now\<rparr>
       # update_email_status now i ''sent'' err tbl"
  by (simp add: update_email_status_def)

lemma update_miss:
  "row_id r \<noteq> i \<Longrightarrow> update_email_status now i st err (r # tbl)
     = r # update_email_status now i st err tbl"
  by (simp add: update_email_status_def)

lemma update_nil: "update_email_status now i st err [] = []"
  by (simp add: update_email_status_def)

lemma sent_not_pending:
  "\<not> is_pending (r\<lparr>status := ''sent'', sent := True, sent_at := t, updated_at := u\<rparr>)"
  by (simp add: is_pending_def)

lemmas fetch_eval = get_pending_emails_def get_pending_emails_paginated_def
  inserted_row_pending inserted_row_key inserted_row_id inserted_row_serial
  inserted_row_status update_sent_hit update_miss update_nil
  sent_not_pending

lemma get_pending_sorted: "sorted (map serial_key (get_pending_emails tbl n))"
  by (simp add: get_pending_emails_def take_map [symmetric] sorted_wrt_take)

lemma get_pending_subset: "set (get_pending_emails tbl n) \<subseteq> {r \<in> set tbl. is_pending r}"
proof -
  have "set (get_pending_emails tbl n) \<subseteq> set (sort_key serial_key (filter is_pending tbl))"
    unfolding get_pending_emails_def by (rule set_take_subset)
  then show ?thesis by auto
qed

lemma worker_fetch_minimal:
  assumes "get_pending_emails tbl 1 = r # rs" and "r' \<in> set tbl" and "is_pending r'"
  shows "serial_key r \<le> serial_key r'"
proof -
  let ?s = "sort_key serial_key (filter is_pending tbl)"
  from assms(1) have "take 1 ?s = r # rs" by (simp add: get_pending_emails_def)
  then obtain ys where s: "?s = r # ys" by (cases ?s) auto
  have "sorted (map serial_key ?s)" by simp
  with s have "\<forall>y \<in> set ys. serial_key r \<le> serial_key y" by simp
  moreover have "r' \<in> set ?s" using assms(2,3) by simp
  ultimately show ?thesis using s by auto
qed

lemma paginated_sorted:
  "sorted (map (\<lambda>r. (serial_key r, row_id r)) (get_pending_emails_paginated tbl off n))"
  by (simp add: get_pending_emails_paginated_def take_map [symmetric] drop_map [symmetric]
      sorted_wrt_take sorted_wrt_drop)

lemma three_lanes_order:
  "map row_id (get_pending_emails three_lanes 1) = [2]
   \<and> map row_id (get_pending_emails (update_email_status 5 2 ''sent'' None three_lanes) 1) = [3]
   \<and> map row_id (get_pending_emails (update_email_status 6 3 ''sent'' None
        (update_email_status 5 2 ''sent'' None three_lanes)) 1) = [1]"
  by (simp add: three_lanes_def fetch_eval)

text \<open>
  C2. In \<open>tied_pending\<close> both rows are pending with \<open>serial_number\<close> 0. The worker's
  fetch \<open>get_pending_emails(limit=1)\<close> returns the row with id 2, and the row with id 1
  only after row 2 has been recorded as sent: the order is 2, 1, not ascending id.
  \<open>get_pending_emails_paginated\<close>, whose ORDER BY also names \<open>id\<close>, returns id 1 first.
\<close>

theorem worker_fetch_ignores_id:
  "map serial_number tied_pending = [Some 0, Some 0]
   \<and> map row_id (get_pending_emails tied_pending 1) = [2]
   \<and> map row_id (get_pending_emails (update_email_status 5 2 ''sent'' None tied_pending) 1) = [1]
   \<and> map row_id (get_pending_emails_paginated tied_pending 0 1) = [1]"
  by (simp add: tied_pending_def fetch_eval priya_serial rahul_serial)

text \<open>
  C1, as stated, fails. \<open>one_pending\<close> holds exactly one pending job. The worker's
  claim returns it; a second claim on the table the first one left returns it again, and
  so does the dashboard's Send on that row: no caller is told that none is available.
\<close>

theorem claim_twice_same_job:
  "length (filter is_pending one_pending) = 1
   \<and> fst (claim_next_pending one_pending) = Some (inserted_row 1 1 priya)
   \<and> fst (claim_next_pending (snd (claim_next_pending one_pending)))
       = Some (inserted_row 1 1 priya)
   \<and> fst (manual_claim (snd (claim_next_pending one_pending)) 1)
       = Some (inserted_row 1 1 priya)"
  by (simp add: claim_next_pending_def manual_claim_def one_pending_def get_pending_emails_def
      get_emails_by_status_def inserted_row_pending inserted_row_id inserted_row_status)

lemma update_email_status_map:
  "update_email_status now i st err tbl
     = map (\<lambda>r. if row_id r = i then outcome_row now st err r else r) tbl"
  by (simp add: update_email_status_def outcome_row_def)

lemma outcome_row_not_pending: "st \<noteq> ''pending'' \<Longrightarrow> \<not> is_pending (outcome_row now st err r)"
  by (simp add: outcome_row_def is_pending_def)

lemma update_not_pending:
  assumes "st \<noteq> ''pending''"
  shows "filter is_pending (update_email_status now i st err tbl)
           = filter (\<lambda>r. is_pending r \<and> row_id r \<noteq> i) tbl"
  unfolding update_email_status_map
  by (induction tbl) (simp_all add: outcome_row_not_pending [OF assms])

text \<open>
  C1, as the code has it. Taking the next job is a read: the worker's claim and the
  dashboard's leave the table as it was, so a claim repeated before an outcome is
  recorded returns the same answer; the answer is "none" exactly when no row is pending;
  and a row leaves the pending set only when \<open>update_email_status\<close> records a status
  other than pending for it, after which no fetch returns it.
\<close>

theorem claim_is_a_read:
  "snd (claim_next_pending tbl) = tbl
   \<and> snd (manual_claim tbl i) = tbl
   \<and> claim_next_pending (snd (claim_next_pending tbl)) = claim_next_pending tbl
   \<and> (fst (claim_next_pending tbl) = None) = (filter is_pending tbl = [])
   \<and> (st \<noteq> ''pending'' \<longrightarrow>
        i \<notin> row_id ` set (get_pending_emails (update_email_status now i st err tbl) n))"
proof -
  have a: "snd (claim_next_pending tbl) = tbl"
    by (simp add: claim_next_pending_def split: list.split)
  have b: "snd (manual_claim tbl i) = tbl" by (simp add: manual_claim_def)
  have c: "(fst (claim_next_pending tbl) = None) = (filter is_pending tbl = [])"
  proof -
    have "length (sort_key serial_key (filter is_pending tbl)) = length (filter is_pending tbl)"
      by simp
    then have "(sort_key serial_key (filter is_pending tbl) = []) = (filter is_pending tbl = [])"
      by (metis length_0_conv)
    then have "(get_pending_emails tbl 1 = []) = (filter is_pending tbl = [])"
      by (simp add: get_pending_emails_def)
    then show ?thesis
      by (cases "get_pending_emails tbl 1") (simp_all add: claim_next_pending_def)
  qed
  have d: "i \<notin> row_id ` set (get_pending_emails (update_email_status now i st err tbl) n)"
    if "st \<noteq> ''pending''"
  proof -
    have "set (get_pending_emails (update_email_status now i st err tbl) n)
            \<subseteq> set (filter is_pending (update_email_status now i st err tbl))"
      using get_pending_subset by fastforce
    then show ?thesis unfolding update_not_pending [OF that] by auto
  qed
  from a b c d show ?thesis by simp
qed

theorem claim_is_a_read_witness:
  "snd (claim_next_pending one_pending) = one_pending
   \<and> snd (manual_claim one_pending 1) = one_pending
   \<and> claim_next_pending (snd (claim_next_pending one_pending)) = claim_next_pending one_pending
   \<and> (fst (claim_next_pending one_pending) = None) = (filter is_pending one_pending = [])
   \<and> ''sent'' \<noteq> ''pending''
   \<and> 1 \<notin> row_id ` set (get_pending_emails (update_email_status 5 1 ''sent'' None one_pending) 1)"
  using claim_is_a_read [of one_pending 1 "''sent''" 5 None 1] by simp

section \<open>Controls and pacing\<close>

lemma pause_sets_flag: "is_paused (pause wk) \<and> is_running (pause wk) = is_running wk"
  by (simp add: pause_def)

text \<open>
  C9. \<open>pause\<close> turns the run mode Running into Paused and leaves every other run mode
  (Stopped, Paused) as it is; the address in flight and the threads are not touched. The
  run mode is what the status badge derives from the flags: \<open>pause\<close> sets \<open>is_paused\<close>
  whatever the state is (\<open>pause_sets_flag\<close>), and with \<open>is_running\<close> false the mode reads
  Stopped all the same; \<open>start\<close> clears the flag.
\<close>

theorem pause_only_from_running:
  "(run_mode wk = Running \<longrightarrow> run_mode (pause wk) = Paused)
   \<and> (run_mode wk \<noteq> Running \<longrightarrow> run_mode (pause wk) = run_mode wk)
   \<and> current_email (pause wk) = current_email wk
   \<and> threads_started (pause wk) = threads_started wk"
  by (simp add: run_mode_def pause_def)

theorem pause_only_from_running_witness:
  "run_mode (start new_worker) = Running
   \<and> run_mode (pause (start new_worker)) = Paused
   \<and> run_mode new_worker = Stopped
   \<and> run_mode (pause new_worker) = Stopped
   \<and> run_mode (pause (pause (start new_worker))) = Paused
   \<and> current_email (pause new_worker) = current_email new_worker"
  using pause_only_from_running [of "start new_worker"] pause_only_from_running [of new_worker]
    pause_only_from_running [of "pause (start new_worker)"]
  by (simp add: run_mode_def start_def new_worker_def)

lemma wait_loop_checks_first:
  "\<not> is_running wk \<or> is_paused wk \<Longrightarrow> wait_loop n cs wk ev = (wk, ev)"
  by (cases n) auto

lemma wait_loop_tick:
  "is_running wk \<Longrightarrow> \<not> is_paused wk \<Longrightarrow>
   wait_loop (Suc n) (c # cs) wk ev = wait_loop n cs (controls c wk) (ev @ [Sleep 1])"
  by simp

lemma wait_loop_only_seconds:
  "\<exists>k\<le>n. snd (wait_loop n cs wk ev) = ev @ replicate k (Sleep 1)"
proof (induction n arbitrary: cs wk ev)
  case 0
  then show ?case by simp
next
  case (Suc n)
  show ?case
  proof (cases "\<not> is_running wk \<or> is_paused wk")
    case True
    then have "snd (wait_loop (Suc n) cs wk ev) = ev @ replicate 0 (Sleep 1)" by auto
    then show ?thesis by blast
  next
    case False
    let ?wk = "controls (case cs of [] \<Rightarrow> [] | c # _ \<Rightarrow> c) wk"
    from Suc.IH [of "tl cs" ?wk "ev @ [Sleep 1]"]
    obtain k where k: "k \<le> n"
      and eq: "snd (wait_loop n (tl cs) ?wk (ev @ [Sleep 1])) = (ev @ [Sleep 1]) @ replicate k (Sleep 1)"
      by blast
    from False eq have "snd (wait_loop (Suc n) cs wk ev) = ev @ replicate (Suc k) (Sleep 1)"
      by simp
    with k show ?thesis by (metis Suc_le_mono)
  qed
qed

lemma wait_loop_interrupt:
  assumes "is_running wk" and "\<not> is_paused wk"
    and "\<not> is_running (controls c wk) \<or> is_paused (controls c wk)"
    and "j < n"
  shows "wait_loop n (replicate j [] @ c # rest) wk ev
           = (controls c wk, ev @ replicate (Suc j) (Sleep 1))"
  using assms(4)
proof (induction j arbitrary: n ev)
  case 0
  then obtain m where n: "n = Suc m" by (cases n) auto
  show ?case unfolding n using assms(1,2,3)
    by (simp add: wait_loop_checks_first)
next
  case (Suc j)
  then obtain m where n: "n = Suc m" and jm: "j < m" by (cases n) auto
  have "wait_loop n (replicate (Suc j) [] @ c # rest) wk ev
          = wait_loop m (replicate j [] @ c # rest) wk (ev @ [Sleep 1])"
    unfolding n using assms(1,2) by simp
  also have "\<dots> = (controls c wk, (ev @ [Sleep 1]) @ replicate (Suc j) (Sleep 1))"
    by (rule Suc.IH [OF jm])
  finally show ?case by (simp add: replicate_append_same)
qed

lemma wait_loop_undisturbed:
  assumes "is_running wk" and "\<not> is_paused wk"
  shows "wait_loop n [] wk ev = (wk, ev @ replicate n (Sleep 1))"
proof (induction n arbitrary: ev)
  case 0
  then show ?case by simp
next
  case (Suc n)
  have "wait_loop (Suc n) [] wk ev = wait_loop n [] wk (ev @ [Sleep 1])"
    using assms by simp
  then show ?case by (simp add: Suc.IH replicate_append_same)
qed

lemma randint_in_window:
  assumes "a \<le> b"
  shows "\<exists>d. randint a b u = Inr d \<and> a \<le> d \<and> d \<le> b"
proof -
  have pos: "0 < nat (b - a + 1)" using assms by simp
  have "u mod nat (b - a + 1) < nat (b - a + 1)" using pos by (rule mod_less_divisor)
  then have "int (u mod nat (b - a + 1)) \<le> b - a" using assms by linarith
  then show ?thesis using assms by (simp add: randint_def)
qed

lemma randint_draw:
  assumes "a \<le> b" and "u < nat (b - a + 1)"
  shows "randint a b u = Inr (a + int u)"
  using assms by (simp add: randint_def)

lemma window_bij:
  assumes "a \<le> b"
  shows "bij_betw (\<lambda>u. a + int u) {..<nat (b - a + 1)} {a..b}"
proof (rule bij_betw_byWitness [where f' = "\<lambda>d. nat (d - a)"])
  show "\<forall>u\<in>{..<nat (b - a + 1)}. nat (a + int u - a) = u" by simp
  show "\<forall>d\<in>{a..b}. a + int (nat (d - a)) = d" by simp
  show "(\<lambda>u. a + int u) ` {..<nat (b - a + 1)} \<subseteq> {a..b}" by auto
  show "(\<lambda>d. nat (d - a)) ` {a..b} \<subseteq> {..<nat (b - a + 1)}" by auto
qed

lemma Config_defaults:
  "MIN_DELAY (Config (\<lambda>v. None)) = 600 \<and> MAX_DELAY (Config (\<lambda>v. None)) = 1800"
  by (simp add: Config_def)

lemma pace_waits:
  assumes "is_running wk" and "\<not> is_paused wk" and "MIN_DELAY cfg \<le> MAX_DELAY cfg"
  shows "\<exists>d. MIN_DELAY cfg \<le> d \<and> d \<le> MAX_DELAY cfg
            \<and> pace cfg e wk ev = Inr (wait_loop (nat d) (during_wait e) wk ev)"
proof -
  obtain d where "randint (MIN_DELAY cfg) (MAX_DELAY cfg) (draw e) = Inr d"
    and "MIN_DELAY cfg \<le> d" and "d \<le> MAX_DELAY cfg"
    using randint_in_window [OF assms(3)] by blast
  then show ?thesis using assms(1,2) by (auto simp: pace_def)
qed

text \<open>
  The pacing on its own, for a worker that is running and not paused when it starts:
  the delay is drawn inside the window, the wait adds only one-second sleeps, and a
  control that stops or pauses the worker during a sleep ends the wait after that sleep.
\<close>

lemma pace_is_interruptible:
  assumes run: "is_running wk" and unp: "\<not> is_paused wk"
    and window: "MIN_DELAY cfg \<le> MAX_DELAY cfg"
  shows "(\<exists>d. randint (MIN_DELAY cfg) (MAX_DELAY cfg) (draw e) = Inr d
            \<and> MIN_DELAY cfg \<le> d \<and> d \<le> MAX_DELAY cfg
            \<and> pace cfg e wk ev = Inr (wait_loop (nat d) (during_wait e) wk ev)
            \<and> (\<exists>k\<le>nat d. snd (wait_loop (nat d) (during_wait e) wk ev)
                              = ev @ replicate k (Sleep 1))
            \<and> (during_wait e = [] \<longrightarrow>
                  pace cfg e wk ev = Inr (wk, ev @ replicate (nat d) (Sleep 1)))
            \<and> (j < nat d \<and> during_wait e = replicate j [] @ c # rest
                  \<and> (\<not> is_running (controls c wk) \<or> is_paused (controls c wk))
                \<longrightarrow> pace cfg e wk ev = Inr (controls c wk, ev @ replicate (Suc j) (Sleep 1))))
         \<and> bij_betw (\<lambda>u. MIN_DELAY cfg + int u)
              {..<nat (MAX_DELAY cfg - MIN_DELAY cfg + 1)} {MIN_DELAY cfg..MAX_DELAY cfg}
         \<and> (u < nat (MAX_DELAY cfg - MIN_DELAY cfg + 1) \<longrightarrow>
              randint (MIN_DELAY cfg) (MAX_DELAY cfg) u = Inr (MIN_DELAY cfg + int u))
         \<and> MIN_DELAY (Config (\<lambda>v. None)) = 600 \<and> MAX_DELAY (Config (\<lambda>v. None)) = 1800
         \<and> wait_loop n cs (pause wk) ev = (pause wk, ev)
         \<and> wait_loop n cs (stop wk) ev = (stop wk, ev)"
proof -
  obtain d where d: "randint (MIN_DELAY cfg) (MAX_DELAY cfg) (draw e) = Inr d"
    and lo: "MIN_DELAY cfg \<le> d" and hi: "d \<le> MAX_DELAY cfg"
    using randint_in_window [OF window] by blast
  have p: "pace cfg e wk ev = Inr (wait_loop (nat d) (during_wait e) wk ev)"
    using run unp d by (simp add: pace_def)
  have secs: "\<exists>k\<le>nat d. snd (wait_loop (nat d) (during_wait e) wk ev) = ev @ replicate k (Sleep 1)"
    by (rule wait_loop_only_seconds)
  have full: "pace cfg e wk ev = Inr (wk, ev @ replicate (nat d) (Sleep 1))"
    if "during_wait e = []"
    using p that wait_loop_undisturbed [OF run unp] by simp
  have cut: "pace cfg e wk ev = Inr (controls c wk, ev @ replicate (Suc j) (Sleep 1))"
    if "j < nat d \<and> during_wait e = replicate j [] @ c # rest
          \<and> (\<not> is_running (controls c wk) \<or> is_paused (controls c wk))"
  proof -
    from that have a: "j < nat d" and b: "during_wait e = replicate j [] @ c # rest"
      and i: "\<not> is_running (controls c wk) \<or> is_paused (controls c wk)" by blast+
    show ?thesis unfolding p b by (simp only: wait_loop_interrupt [OF run unp i a])
  qed
  have first: "\<exists>d. randint (MIN_DELAY cfg) (MAX_DELAY cfg) (draw e) = Inr d
            \<and> MIN_DELAY cfg \<le> d \<and> d \<le> MAX_DELAY cfg
            \<and> pace cfg e wk ev = Inr (wait_loop (nat d) (during_wait e) wk ev)
            \<and> (\<exists>k\<le>nat d. snd (wait_loop (nat d) (during_wait e) wk ev)
                              = ev @ replicate k (Sleep 1))
            \<and> (during_wait e = [] \<longrightarrow>
                  pace cfg e wk ev = Inr (wk, ev @ replicate (nat d) (Sleep 1)))
            \<and> (j < nat d \<and> during_wait e = replicate j [] @ c # rest
                  \<and> (\<not> is_running (controls c wk) \<or> is_paused (controls c wk))
                \<longrightarrow> pace cfg e wk ev = Inr (controls c wk, ev @ replicate (Suc j) (Sleep 1)))"
    using d lo hi p secs full cut by blast
  have draws: "u < nat (MAX_DELAY cfg - MIN_DELAY cfg + 1) \<longrightarrow>
      randint (MIN_DELAY cfg) (MAX_DELAY cfg) u = Inr (MIN_DELAY cfg + int u)"
    using randint_draw [OF window] by blast
  have paused: "wait_loop n cs (pause wk) ev = (pause wk, ev)"
    by (rule wait_loop_checks_first) (simp add: pause_def)
  have stopped: "wait_loop n cs (stop wk) ev = (stop wk, ev)"
    by (rule wait_loop_checks_first) (simp add: stop_def)
  show ?thesis
    using first window_bij [OF window] draws Config_defaults paused stopped by blast
qed



section \<open>The dispatch loop\<close>

lemma controls_nil_state: "s\<lparr>worker_of := controls [] (worker_of s)\<rparr> = s"
  by simp

lemma claim_empty:
  "filter is_pending tbl = [] \<Longrightarrow> claim_next_pending tbl = (None, tbl)"
  by (simp add: claim_next_pending_def get_pending_emails_def)

lemma claim_some:
  "get_pending_emails tbl 1 = r # rs \<Longrightarrow> claim_next_pending tbl = (Some r, tbl)"
  by (simp add: claim_next_pending_def)

lemma fetch_nonempty:
  "get_pending_emails tbl 1 = r # rs \<Longrightarrow> filter is_pending tbl \<noteq> []"
  by (auto simp: get_pending_emails_def)

lemma iteration_running:
  "is_running (controls (before_check e) (worker_of s)) \<Longrightarrow>
   \<not> is_paused (controls (before_check e) (worker_of s)) \<Longrightarrow>
   iteration cfg e s = body cfg e (s\<lparr>worker_of := controls (before_check e) (worker_of s)\<rparr>)"
  by (simp add: iteration_def Let_def)

lemma iteration_stopped:
  "\<not> is_running (controls (before_check e) (worker_of s)) \<Longrightarrow>
   iteration cfg e s = (False, s\<lparr>worker_of := controls (before_check e) (worker_of s)\<rparr>)"
  by (simp add: iteration_def Let_def)

lemma iteration_paused:
  "is_running (controls (before_check e) (worker_of s)) \<Longrightarrow>
   is_paused (controls (before_check e) (worker_of s)) \<Longrightarrow>
   fst (iteration cfg e s) = True"
  by (simp add: iteration_def Let_def)

lemma body_fetch_error:
  "fetch_error e = Some x \<Longrightarrow> body cfg e s = (True, worker_error x s)"
  by (simp add: body_def)

lemma body_empty:
  "fetch_error e = None \<Longrightarrow> filter is_pending (table_of s) = [] \<Longrightarrow>
   body cfg e s
     = (False, s\<lparr>worker_of := (worker_of s)\<lparr>is_running := False, current_email := None\<rparr>\<rparr>)"
  by (simp add: body_def claim_empty)

lemma body_job:
  assumes "fetch_error e = None" and "get_pending_emails (table_of s) 1 = r # rs"
  shows "fst (body cfg e s) = True"
  using assms
  by (simp add: body_def claim_some Let_def split: sum.split prod.split)

lemma body_recorded:
  assumes "fetch_error e = None" and "get_pending_emails (table_of s) 1 = r # rs"
    and "record_outcome e r (table_of s) = Inr tbl'"
  shows "table_of (snd (body cfg e s)) = tbl'"
  using assms
  by (simp add: body_def claim_some Let_def worker_error_def split: sum.split prod.split)

lemma pace_quiet:
  assumes "is_running wk" and "\<not> is_paused wk" and "during_wait e = []"
  shows "case pace cfg e wk ev of Inl x \<Rightarrow> True | Inr (wk', ev') \<Rightarrow> wk' = wk"
  using assms
  by (simp add: pace_def wait_loop_undisturbed split: sum.split)

lemma body_quiet_worker:
  assumes "fetch_error e = None" and "get_pending_emails (table_of s) 1 = r # rs"
    and "record_outcome e r (table_of s) = Inr tbl'"
    and "during_send e = []" and "during_wait e = []"
    and "is_running (worker_of s)" and "\<not> is_paused (worker_of s)"
  shows "worker_of (snd (body cfg e s)) = (worker_of s)\<lparr>current_email := None\<rparr>"
proof -
  let ?wk = "(worker_of s)\<lparr>current_email := None\<rparr>"
  have run: "is_running ?wk" and unp: "\<not> is_paused ?wk" using assms(6,7) by simp_all
  show ?thesis
  proof (cases "pace cfg e ?wk (events s @ [Send (email r)])")
    case (Inl x)
    then show ?thesis using assms(1-4)
      by (simp add: body_def claim_some Let_def worker_error_def)
  next
    case (Inr p)
    obtain wk' ev' where p: "p = (wk', ev')" by (cases p)
    from pace_quiet [OF run unp assms(5), of cfg "events s @ [Send (email r)]"] Inr p
    have "wk' = ?wk" by simp
    with Inr p show ?thesis using assms(1-4)
      by (simp add: body_def claim_some Let_def)
  qed
qed

lemma record_outcome_failure:
  "send_email (resume_error e) (smtp_error e) = Inl m \<Longrightarrow> failed_update_error e = None \<Longrightarrow>
   record_outcome e r tbl = Inr (update_email_status (clock e) (row_id r) ''failed'' (Some m) tbl)"
  by (simp add: record_outcome_def record_failed_def)

lemma record_outcome_success:
  "send_email (resume_error e) (smtp_error e) = Inr b \<Longrightarrow> sent_update_error e = None \<Longrightarrow>
   record_outcome e r tbl = Inr (update_email_status (clock e) (row_id r) ''sent'' None tbl)"
  by (simp add: record_outcome_def)

lemma send_email_smtp_failure: "send_email None (Some x) = Inl (''SMTP Error: '' @ x)"
  by (simp add: send_email_def)

lemma failed_rows:
  "list_all (\<lambda>x. status x = ''failed'' \<and> error_message x = Some m)
     (filter (\<lambda>x. row_id x = i) (update_email_status now i ''failed'' (Some m) tbl))"
  by (induction tbl) (simp_all add: update_email_status_def)

lemma fetch_after_update:
  assumes "st \<noteq> ''pending''"
  shows "get_pending_emails (update_email_status now i st err tbl) k
           = get_pending_emails (filter (\<lambda>x. row_id x \<noteq> i) tbl) k"
proof -
  have "filter is_pending (filter (\<lambda>x. row_id x \<noteq> i) tbl)
          = filter (\<lambda>r. is_pending r \<and> row_id r \<noteq> i) tbl"
    by (simp add: conj_commute)
  then show ?thesis
    by (simp add: get_pending_emails_def update_not_pending [OF assms])
qed

lemma fetch_empty_iff: "(get_pending_emails tbl 1 = []) = (filter is_pending tbl = [])"
proof -
  have "length (sort_key serial_key (filter is_pending tbl)) = length (filter is_pending tbl)"
    by simp
  then have "(sort_key serial_key (filter is_pending tbl) = []) = (filter is_pending tbl = [])"
    by (metis length_0_conv)
  then show ?thesis by (simp add: get_pending_emails_def)
qed

lemma loop_exit_condition:
  "(fst (iteration cfg e s) = False)
     = (\<not> is_running (controls (before_check e) (worker_of s))
        \<or> (\<not> is_paused (controls (before_check e) (worker_of s))
            \<and> fetch_error e = None \<and> filter is_pending (table_of s) = []))"
proof (cases "is_running (controls (before_check e) (worker_of s))")
  case False
  then show ?thesis by (simp add: iteration_stopped)
next
  case run: True
  show ?thesis
  proof (cases "is_paused (controls (before_check e) (worker_of s))")
    case True
    with run show ?thesis by (simp add: iteration_paused)
  next
    case unp: False
    let ?s0 = "s\<lparr>worker_of := controls (before_check e) (worker_of s)\<rparr>"
    have it: "iteration cfg e s = body cfg e ?s0" using run unp by (rule iteration_running)
    show ?thesis
    proof (cases "fetch_error e")
      case (Some x)
      then show ?thesis using run unp it by (simp add: body_fetch_error)
    next
      case None
      show ?thesis
      proof (cases "get_pending_emails (table_of s) 1")
        case Nil
        then have "filter is_pending (table_of s) = []"
          by (simp only: fetch_empty_iff)
        then show ?thesis using run unp it None by (simp add: body_empty)
      next
        case (Cons r rs)
        then have "fst (body cfg e ?s0) = True" using None by (simp add: body_job)
        moreover have "filter is_pending (table_of s) \<noteq> []" using Cons by (rule fetch_nonempty)
        ultimately show ?thesis using run it by simp
      qed
    qed
  qed
qed

text \<open>
  C7. Take a pass that finds the worker running and not paused. The loop ends in that
  pass exactly when the fetch succeeds and no row is pending; then \<open>process_emails\<close>
  returns, with the worker Stopped, no address in flight and the table as it was. When
  the fetch yields a job \<open>r\<close> and \<open>send_email\<close> fails with reason \<open>m\<close> (and the store
  takes the write), the loop goes on; the table is the old one with \<open>"failed"\<close> and
  \<open>m\<close> recorded for \<open>r\<close>, so that every row with the id of \<open>r\<close> has status failed and
  \<open>error_message = m\<close>, character for character; the next fetch is the fetch on the other
  rows; and unless the dashboard calls a control during the pass the worker is still
  Running. (\<open>m\<close> is the \<open>str\<close> of what \<open>send_email\<close> raises: for a failure of the SMTP
  session that is \<open>SMTP Error:\<close> followed by the session's message,
  \<open>send_email_smtp_failure\<close>.)
\<close>

theorem loop_ends_only_on_empty_queue:
  assumes run: "is_running (controls (before_check e) (worker_of s))"
    and unp: "\<not> is_paused (controls (before_check e) (worker_of s))"
  shows "(fst (iteration cfg e s) = False)
           = (fetch_error e = None \<and> filter is_pending (table_of s) = [])
         \<and> (fetch_error e = None \<and> filter is_pending (table_of s) = [] \<longrightarrow>
              (\<exists>s'. process_emails cfg (e # es) s = Some s'
                    \<and> run_mode (worker_of s') = Stopped
                    \<and> current_email (worker_of s') = None
                    \<and> table_of s' = table_of s))
         \<and> (fetch_error e = None \<and> get_pending_emails (table_of s) 1 = r # rs
              \<and> send_email (resume_error e) (smtp_error e) = Inl m
              \<and> failed_update_error e = None \<longrightarrow>
              fst (iteration cfg e s) = True
              \<and> table_of (snd (iteration cfg e s))
                  = update_email_status (clock e) (row_id r) ''failed'' (Some m) (table_of s)
              \<and> list_all (\<lambda>x. status x = ''failed'' \<and> error_message x = Some m)
                   (filter (\<lambda>x. row_id x = row_id r) (table_of (snd (iteration cfg e s))))
              \<and> get_pending_emails (table_of (snd (iteration cfg e s))) k
                  = get_pending_emails (filter (\<lambda>x. row_id x \<noteq> row_id r) (table_of s)) k
              \<and> (during_send e = [] \<and> during_wait e = [] \<longrightarrow>
                    run_mode (worker_of (snd (iteration cfg e s))) = Running))"
proof -
  let ?wk0 = "controls (before_check e) (worker_of s)"
  let ?s0 = "s\<lparr>worker_of := ?wk0\<rparr>"
  have it: "iteration cfg e s = body cfg e ?s0" using run unp by (rule iteration_running)
  have A: "(fst (iteration cfg e s) = False)
             = (fetch_error e = None \<and> filter is_pending (table_of s) = [])"
    using loop_exit_condition [of cfg e s] run unp by simp
  have B: "\<exists>s'. process_emails cfg (e # es) s = Some s'
                \<and> run_mode (worker_of s') = Stopped
                \<and> current_email (worker_of s') = None
                \<and> table_of s' = table_of s"
    if "fetch_error e = None \<and> filter is_pending (table_of s) = []"
  proof -
    from that have "iteration cfg e s
        = (False, ?s0\<lparr>worker_of := ?wk0\<lparr>is_running := False, current_email := None\<rparr>\<rparr>)"
      unfolding it by (simp add: body_empty)
    then show ?thesis by (simp add: process_emails_def run_mode_def)
  qed
  have C: "fst (iteration cfg e s) = True
      \<and> table_of (snd (iteration cfg e s))
          = update_email_status (clock e) (row_id r) ''failed'' (Some m) (table_of s)
      \<and> list_all (\<lambda>x. status x = ''failed'' \<and> error_message x = Some m)
           (filter (\<lambda>x. row_id x = row_id r) (table_of (snd (iteration cfg e s))))
      \<and> get_pending_emails (table_of (snd (iteration cfg e s))) k
          = get_pending_emails (filter (\<lambda>x. row_id x \<noteq> row_id r) (table_of s)) k
      \<and> (during_send e = [] \<and> during_wait e = [] \<longrightarrow>
            run_mode (worker_of (snd (iteration cfg e s))) = Running)"
    if h: "fetch_error e = None \<and> get_pending_emails (table_of s) 1 = r # rs
          \<and> send_email (resume_error e) (smtp_error e) = Inl m
          \<and> failed_update_error e = None"
  proof -
    let ?tbl = "update_email_status (clock e) (row_id r) ''failed'' (Some m) (table_of s)"
    from h have f: "fetch_error e = None" and g: "get_pending_emails (table_of ?s0) 1 = r # rs"
      and rec: "record_outcome e r (table_of ?s0) = Inr ?tbl"
      by (simp_all add: record_outcome_failure)
    have c1: "fst (iteration cfg e s) = True" unfolding it using f g by (rule body_job)
    have c2: "table_of (snd (iteration cfg e s)) = ?tbl"
      unfolding it using f g rec by (rule body_recorded)
    have c3: "list_all (\<lambda>x. status x = ''failed'' \<and> error_message x = Some m)
           (filter (\<lambda>x. row_id x = row_id r) (table_of (snd (iteration cfg e s))))"
      unfolding c2 by (rule failed_rows)
    have c4: "get_pending_emails (table_of (snd (iteration cfg e s))) k
          = get_pending_emails (filter (\<lambda>x. row_id x \<noteq> row_id r) (table_of s)) k"
      unfolding c2 by (rule fetch_after_update) simp
    have c5: "run_mode (worker_of (snd (iteration cfg e s))) = Running"
      if q: "during_send e = [] \<and> during_wait e = []"
    proof -
      have "worker_of (snd (body cfg e ?s0)) = (worker_of ?s0)\<lparr>current_email := None\<rparr>"
        using f g rec q run unp by (intro body_quiet_worker) simp_all
      then show ?thesis unfolding it using run unp by (simp add: run_mode_def)
    qed
    from c1 c2 c3 c4 c5 show ?thesis by blast
  qed
  from A B C show ?thesis by blast
qed

lemma campaign_running:
  "is_running (controls (before_check bounce) (worker_of campaign))
   \<and> \<not> is_paused (controls (before_check bounce) (worker_of campaign))
   \<and> is_running (controls (before_check quiet) (worker_of campaign))
   \<and> \<not> is_paused (controls (before_check quiet) (worker_of campaign))"
  by (simp add: bounce_def quiet_def campaign_def start_def new_worker_def)

lemma bounce_fields:
  "fetch_error bounce = None \<and> failed_update_error bounce = None \<and> clock bounce = 10
   \<and> during_send bounce = [] \<and> during_wait bounce = []
   \<and> send_email (resume_error bounce) (smtp_error bounce) = Inl ''SMTP Error: boom''"
  by (simp add: bounce_def quiet_def send_email_def)

lemma two_pending_fetch: "get_pending_emails two_pending 1 = [inserted_row 1 1 priya]"
  by (simp add: two_pending_def fetch_eval priya_serial rahul_serial)

lemma two_pending_bounced:
  "update_email_status 10 1 ''failed'' (Some m) two_pending
     = [(inserted_row 1 1 priya)\<lparr>status := ''failed'', error_message := Some m, updated_at := 10\<rparr>,
        inserted_row 2 2 rahul]"
  by (simp add: two_pending_def update_email_status_def inserted_row_id)

theorem loop_ends_only_on_empty_queue_witness:
  "is_running (controls (before_check bounce) (worker_of campaign))
   \<and> \<not> is_paused (controls (before_check bounce) (worker_of campaign))
   \<and> fst (iteration no_delay bounce campaign) = True
   \<and> map status (table_of (snd (iteration no_delay bounce campaign))) = [''failed'', ''pending'']
   \<and> map error_message (table_of (snd (iteration no_delay bounce campaign)))
       = [Some ''SMTP Error: boom'', None]
   \<and> run_mode (worker_of (snd (iteration no_delay bounce campaign))) = Running
   \<and> (\<exists>s'. process_emails no_delay [quiet] (campaign\<lparr>table_of := []\<rparr>) = Some s'
          \<and> run_mode (worker_of s') = Stopped \<and> current_email (worker_of s') = None)"
proof -
  have run: "is_running (controls (before_check bounce) (worker_of campaign))"
    and unp: "\<not> is_paused (controls (before_check bounce) (worker_of campaign))"
    using campaign_running by simp_all
  have hyp: "fetch_error bounce = None
      \<and> get_pending_emails (table_of campaign) 1 = inserted_row 1 1 priya # []
      \<and> send_email (resume_error bounce) (smtp_error bounce) = Inl ''SMTP Error: boom''
      \<and> failed_update_error bounce = None"
    using bounce_fields two_pending_fetch by (simp add: campaign_def)
  from loop_ends_only_on_empty_queue [OF run unp, of no_delay "[]" "inserted_row 1 1 priya" "[]"
      "''SMTP Error: boom''" 1] hyp
  have goes_on: "fst (iteration no_delay bounce campaign) = True"
    and tbl: "table_of (snd (iteration no_delay bounce campaign))
       = update_email_status (clock bounce) (row_id (inserted_row 1 1 priya)) ''failed''
           (Some ''SMTP Error: boom'') (table_of campaign)"
    and mode: "during_send bounce = [] \<and> during_wait bounce = [] \<longrightarrow>
          run_mode (worker_of (snd (iteration no_delay bounce campaign))) = Running"
    by blast+
  have tbl': "table_of (snd (iteration no_delay bounce campaign))
       = [(inserted_row 1 1 priya)\<lparr>status := ''failed'',
            error_message := Some ''SMTP Error: boom'', updated_at := 10\<rparr>,
          inserted_row 2 2 rahul]"
    unfolding tbl using bounce_fields
    by (simp add: campaign_def inserted_row_id two_pending_bounced)
  have st: "map status (table_of (snd (iteration no_delay bounce campaign)))
      = [''failed'', ''pending'']"
    unfolding tbl' by (simp add: inserted_row_status)
  have em: "map error_message (table_of (snd (iteration no_delay bounce campaign)))
       = [Some ''SMTP Error: boom'', None]"
    unfolding tbl' by (simp add: inserted_row_def)
  have mode': "run_mode (worker_of (snd (iteration no_delay bounce campaign))) = Running"
    using mode bounce_fields by simp
  let ?s = "campaign\<lparr>table_of := []\<rparr>"
  have run2: "is_running (controls (before_check quiet) (worker_of ?s))"
    and unp2: "\<not> is_paused (controls (before_check quiet) (worker_of ?s))"
    using campaign_running by simp_all
  have hyp2: "fetch_error quiet = None \<and> filter is_pending (table_of ?s) = []"
    by (simp add: quiet_def)
  from loop_ends_only_on_empty_queue [OF run2 unp2, of no_delay "[]"] hyp2
  have "\<exists>s'. process_emails no_delay [quiet] ?s = Some s'
          \<and> run_mode (worker_of s') = Stopped \<and> current_email (worker_of s') = None"
    by blast
  with run unp goes_on st em mode' show ?thesis by blast
qed

lemma no_delay_window: "MIN_DELAY no_delay = 0 \<and> MAX_DELAY no_delay = 0"
  by (simp add: no_delay_def Config_def)

lemma failure_scenario:
  "\<exists>s'. process_emails no_delay [bounce, bounce, quiet] campaign = Some s'
      \<and> run_mode (worker_of s') = Stopped \<and> current_email (worker_of s') = None
      \<and> map status (table_of s') = [''failed'', ''failed'']
      \<and> map error_message (table_of s') = [Some ''SMTP Error: boom'', Some ''SMTP Error: boom'']
      \<and> events s' = [Send (c_email priya), Send (c_email rahul)]"
  by (simp add: process_emails_def iteration_def body_def claim_next_pending_def
      record_outcome_def record_failed_def send_email_def pace_def randint_def
      no_delay_window bounce_def quiet_def campaign_def start_def new_worker_def
      two_pending_def get_pending_emails_def priya_serial rahul_serial run_mode_def
      update_email_status_def is_pending_def serial_key_def inserted_row_def Let_def)

text \<open>
  A write that raises: when recording fails altogether, the handler of the loop takes
  over as well, and the job stays pending in an unchanged table.
\<close>

lemma record_outcome_write_failure:
  "failed_update_error e = Some y \<Longrightarrow>
   send_email (resume_error e) (smtp_error e) = Inl m \<or> sent_update_error e \<noteq> None \<Longrightarrow>
   record_outcome e r tbl = Inl y"
  by (auto simp: record_outcome_def record_failed_def split: sum.split option.split)

lemma write_failure_is_swallowed:
  assumes "run_mode (worker_of s) = Running" and "before_check e = []"
    and "fetch_error e = None" and "get_pending_emails (table_of s) 1 = r # rs"
    and "record_outcome e r (table_of s) = Inl y"
  shows "iteration cfg e s
           = (True, worker_error y
                \<lparr>worker_of = controls (during_send e)
                               ((worker_of s)\<lparr>current_email := Some (email r)\<rparr>),
                 table_of = table_of s, events = events s @ [Send (email r)]\<rparr>)"
proof -
  from assms(1) have "is_running (worker_of s) \<and> \<not> is_paused (worker_of s)"
    by (simp add: run_mode_def split: if_splits)
  then have "iteration cfg e s = body cfg e s"
    using assms(2) by (simp add: iteration_def Let_def)
  then show ?thesis using assms(3,4,5)
    by (simp add: body_def claim_some Let_def)
qed

lemma iteration_store_down:
  assumes "run_mode (worker_of s) = Running" and "fetch_error e = Some x"
    and "before_check e = []"
  shows "iteration cfg e s = (True, worker_error x s)"
proof -
  from assms(1) have "is_running (worker_of s) \<and> \<not> is_paused (worker_of s)"
    by (simp add: run_mode_def split: if_splits)
  then show ?thesis using assms(2,3)
    by (simp add: iteration_def Let_def body_fetch_error)
qed

lemma iterations_store_down:
  assumes "run_mode (worker_of s) = Running" and "fetch_error e = Some x"
    and "before_check e = []"
  shows "iterations cfg (replicate n e) s
           = (True, s\<lparr>events := events s
                @ concat (replicate n [Print (''Worker error: '' @ x), Sleep 5])\<rparr>)"
  using assms(1)
proof (induction n arbitrary: s)
  case 0
  then show ?case by simp
next
  case (Suc n)
  have step: "iteration cfg e s = (True, worker_error x s)"
    using Suc.prems assms(2,3) by (rule iteration_store_down)
  have "run_mode (worker_of (worker_error x s)) = Running"
    using Suc.prems by (simp add: worker_error_def)
  from Suc.IH [OF this] step show ?case
    by (simp add: worker_error_def)
qed

text \<open>
  C8, as the code has it. The loop's reads and writes do not go through
  \<open>execute_query\<close>. When the fetch raises in a pass that finds the worker Running, the
  handler of the loop prints the error and sleeps 5 seconds, and the loop goes on: after
  any number \<open>n\<close> of such passes the loop has not returned, the worker and the table are
  what they were, and the events have grown by \<open>n\<close> prints and \<open>n\<close> sleeps.
  \<open>execute_query\<close> itself runs its statement once, and a second time exactly when the
  first run raised \<open>psycopg2.Error\<close>; what the second run raises leaves the function.
\<close>

theorem store_failure_is_swallowed:
  assumes "run_mode (worker_of s) = Running" and "fetch_error e = Some x"
    and "before_check e = []"
  shows "iterations cfg (replicate n e) s
           = (True, s\<lparr>events := events s
                @ concat (replicate n [Print (''Worker error: '' @ x), Sleep 5])\<rparr>)
         \<and> process_emails cfg (replicate n e) s = None
         \<and> execute_query (Returned v) second_run = (Inr v, 1)
         \<and> execute_query (Other_error y) second_run = (Inl y, 1)
         \<and> execute_query (Psycopg2_error y) (Returned v) = (Inr v, 2)
         \<and> execute_query (Psycopg2_error y) (Psycopg2_error z) = (Inl z, 2)
         \<and> execute_query (Psycopg2_error y) (Other_error z) = (Inl z, 2)
         \<and> snd (execute_query first_run second_run) \<le> 2"
proof -
  have a: "iterations cfg (replicate n e) s
           = (True, s\<lparr>events := events s
                @ concat (replicate n [Print (''Worker error: '' @ x), Sleep 5])\<rparr>)"
    using assms by (rule iterations_store_down)
  then have b: "process_emails cfg (replicate n e) s = None"
    by (simp add: process_emails_def)
  have c: "snd (execute_query first_run second_run) \<le> 2"
    by (simp add: execute_query_def split: attempt.split)
  from a b c show ?thesis by (simp add: execute_query_def)
qed

lemma campaign_mode: "run_mode (worker_of campaign) = Running"
  by (simp add: campaign_def run_mode_def start_def new_worker_def)

lemma store_down_fields:
  "fetch_error store_down = Some ''connection lost'' \<and> before_check store_down = []"
  by (simp add: store_down_def quiet_def)

theorem store_failure_is_swallowed_witness:
  "run_mode (worker_of campaign) = Running
   \<and> fetch_error store_down = Some ''connection lost'' \<and> before_check store_down = []
   \<and> iterations no_delay (replicate 2 store_down) campaign
       = (True, campaign\<lparr>events :=
            [Print ''Worker error: connection lost'', Sleep 5,
             Print ''Worker error: connection lost'', Sleep 5]\<rparr>)
   \<and> process_emails no_delay (replicate 2 store_down) campaign = None"
proof -
  have f: "fetch_error store_down = Some ''connection lost''"
    and b: "before_check store_down = []"
    using store_down_fields by simp_all
  note th = store_failure_is_swallowed [OF campaign_mode f b, of no_delay 2]
  from th have i: "iterations no_delay (replicate 2 store_down) campaign
       = (True, campaign\<lparr>events := events campaign
            @ concat (replicate 2 [Print (''Worker error: '' @ ''connection lost''), Sleep 5])\<rparr>)"
    by (rule conjunct1)
  have n: "process_emails no_delay (replicate 2 store_down) campaign = None"
    by (rule th [THEN conjunct2, THEN conjunct1])
  from i have "iterations no_delay (replicate 2 store_down) campaign
       = (True, campaign\<lparr>events :=
            [Print ''Worker error: connection lost'', Sleep 5,
             Print ''Worker error: connection lost'', Sleep 5]\<rparr>)"
    by (simp add: campaign_def numeral_2_eq_2)
  with campaign_mode f b n show ?thesis by simp
qed

text \<open>
  C8, as stated, fails. With the default configuration and the store down in three
  passes in a row, the loop has attempted the fetch three times, is still going, and the
  worker is still Running; the failures appear in the printed output only.
\<close>

theorem store_failure_keeps_loop_running:
  "fst (iterations (Config (\<lambda>v. None)) [store_down, store_down, store_down] campaign) = True
   \<and> run_mode (worker_of (snd (iterations (Config (\<lambda>v. None))
         [store_down, store_down, store_down] campaign))) = Running
   \<and> events (snd (iterations (Config (\<lambda>v. None)) [store_down, store_down, store_down] campaign))
       = [Print ''Worker error: connection lost'', Sleep 5,
          Print ''Worker error: connection lost'', Sleep 5,
          Print ''Worker error: connection lost'', Sleep 5]
   \<and> process_emails (Config (\<lambda>v. None)) [store_down, store_down, store_down] campaign = None"
proof -
  have "iterations (Config (\<lambda>v. None)) (replicate 3 store_down) campaign
       = (True, campaign\<lparr>events := events campaign
            @ concat (replicate 3 [Print (''Worker error: '' @ ''connection lost''), Sleep 5])\<rparr>)"
    using campaign_mode store_down_fields by (intro iterations_store_down) simp_all
  then have "iterations (Config (\<lambda>v. None)) [store_down, store_down, store_down] campaign
       = (True, campaign\<lparr>events :=
            [Print ''Worker error: connection lost'', Sleep 5,
             Print ''Worker error: connection lost'', Sleep 5,
             Print ''Worker error: connection lost'', Sleep 5]\<rparr>)"
    by (simp add: campaign_def numeral_3_eq_3)
  then show ?thesis using campaign_mode by (simp add: process_emails_def)
qed

section \<open>Pacing inside the loop\<close>










end
